theory Spec2Isabelle
  imports Complex_Main "HOL-Library.AList" "HOL-Library.Multiset" "HOL-Library.List_Lexorder"
    "HOL-Library.Char_ord"
begin

section \<open>Data model\<close>

text \<open>
  A Python dictionary is an association list with pairwise distinct keys, in insertion
  order: \<open>map_of d k\<close> is the lookup \<open>d[k]\<close> (\<open>None\<close> where Python raises KeyError),
  \<open>AList.update k v d\<close> is the assignment \<open>d[k] = v\<close> (in place for a present key,
  appended for a new one). Python numbers are read as reals (no rounding). A function that
  can raise KeyError returns an option, \<open>None\<close> being the raise.
\<close>

type_synonym ('k, 'v) dict = "('k \<times> 'v) list"

text \<open>
  The class Instance (of the fairpyx library) is not part of the sources; the algorithms
  only call its accessors, which are the fields of this record. The list \<open>agents\<close>
  holds the keys of the valuation dictionary, hence pairwise distinct agents. A capacity
  of an agent is a number of seats; the code only uses it in \<open>range(1, capacity + 1)\<close>
  and in a comparison with a length, so it is a natural number here.
\<close>

record ('a, 'i) Instance =
  agents :: "'a list"
  items :: "'i list"
  agent_capacity :: "'a \<Rightarrow> nat"
  item_capacity :: "'i \<Rightarrow> int"
  agent_bundle_value :: "'a \<Rightarrow> 'i list \<Rightarrow> real"
  agent_maximum_value :: "'a \<Rightarrow> real"

section \<open>Excess demand (tabu\_search.py)\<close>

text \<open>The inner loop of \<open>excess_demand\<close>: \<open>sum_allocation\<close> counts the bundles holding the course.\<close>

fun sum_allocation :: "'i \<Rightarrow> ('a, 'i list) dict \<Rightarrow> int \<Rightarrow> int" where
  "sum_allocation course [] n = n"
| "sum_allocation course ((student, bundle) # rest) n =
     sum_allocation course rest (if course \<in> set bundle then n + 1 else n)"

fun excess_demand_loop ::
  "('a, 'i) Instance \<Rightarrow> ('a, 'i list) dict \<Rightarrow> 'i list \<Rightarrow> ('i, int) dict \<Rightarrow> ('i, int) dict" where
  "excess_demand_loop instance allocation [] z = z"
| "excess_demand_loop instance allocation (course # courses) z =
     excess_demand_loop instance allocation courses
       (AList.update course (sum_allocation course allocation 0 - item_capacity instance course) z)"

definition excess_demand :: "('a, 'i) Instance \<Rightarrow> ('a, 'i list) dict \<Rightarrow> ('i, int) dict" where
  "excess_demand instance allocation = excess_demand_loop instance allocation (items instance) []"

text \<open>
  The dictionary comprehension of \<open>clipped_excess_demand\<close>, over the entries of \<open>z\<close>;
  the condition \<open>prices[course] == 0\<close> is evaluated first and raises on a missing price.
\<close>

fun clipped_loop ::
  "('i, real) dict \<Rightarrow> ('i \<times> int) list \<Rightarrow> ('i, int) dict \<Rightarrow> ('i, int) dict option" where
  "clipped_loop prices [] clipped_z = Some clipped_z"
| "clipped_loop prices ((course, zc) # rest) clipped_z =
     (case map_of prices course of
        None \<Rightarrow> None
      | Some p \<Rightarrow>
          clipped_loop prices rest
            (AList.update course (if p = 0 then max 0 zc else zc) clipped_z))"

definition clipped_excess_demand ::
  "('a, 'i) Instance \<Rightarrow> ('i, real) dict \<Rightarrow> ('a, 'i list) dict \<Rightarrow> ('i, int) dict option" where
  "clipped_excess_demand instance prices allocation =
     clipped_loop prices (excess_demand instance allocation) []"

section \<open>Bundle enumeration\<close>

text \<open>
  \<open>itertools.combinations(xs, r)\<close>: the sublists of length \<open>r\<close>, in the order of the
  positions of their elements.
\<close>

fun combinations :: "'i list \<Rightarrow> nat \<Rightarrow> 'i list list" where
  "combinations xs 0 = [[]]"
| "combinations [] (Suc r) = []"
| "combinations (x # xs) (Suc r) = map ((#) x) (combinations xs r) @ combinations xs (Suc r)"

text \<open>The list built by \<open>for r in range(1, capacity + 1): ... extend(combinations(instance.items, r))\<close>.\<close>

definition combinations_courses_list :: "('a, 'i) Instance \<Rightarrow> 'a \<Rightarrow> 'i list list" where
  "combinations_courses_list instance student =
     concat (map (combinations (items instance)) [1 ..< Suc (agent_capacity instance student)])"

text \<open>
  \<open>sorted(xs, key=key, reverse=True)\<close>: descending keys, elements of equal key in their
  original order (Python's sort is stable, also when reversed).
\<close>

definition sorted_reverse :: "('x \<Rightarrow> real) \<Rightarrow> 'x list \<Rightarrow> 'x list" where
  "sorted_reverse key xs = sort_key (\<lambda>x. - key x) xs"

text \<open>\<open>sum(prices[course] for course in combination)\<close>; \<open>None\<close> when a course has no price.\<close>

fun bundle_price :: "('i, real) dict \<Rightarrow> 'i list \<Rightarrow> real option" where
  "bundle_price prices [] = Some 0"
| "bundle_price prices (course # rest) =
     (case map_of prices course of
        None \<Rightarrow> None
      | Some p \<Rightarrow> (case bundle_price prices rest of None \<Rightarrow> None | Some s \<Rightarrow> Some (p + s)))"

text \<open>
  Budget affordability, as the code tests it: the total price of the bundle is at most the
  agent's initial budget (and both lookups succeed).
\<close>

definition affordable :: "('i, real) dict \<Rightarrow> ('a, real) dict \<Rightarrow> 'a \<Rightarrow> 'i list \<Rightarrow> bool" where
  "affordable prices initial_budgets student bundle =
     (case bundle_price prices bundle of
        None \<Rightarrow> False
      | Some p \<Rightarrow> (case map_of initial_budgets student of None \<Rightarrow> False | Some budget \<Rightarrow> p \<le> budget))"

subsection \<open>Fixed-budget mode (tabu\_search.py)\<close>

text \<open>
  The ranking of \<open>student_best_bundles\<close> and of \<open>compute_best_bundles_for_student\<close>: the
  key is \<open>instance.agent_bundle_value(student, combination)\<close>.
\<close>

definition combinations_courses_sorted :: "('a, 'i) Instance \<Rightarrow> 'a \<Rightarrow> 'i list list" where
  "combinations_courses_sorted instance student =
     sorted_reverse (agent_bundle_value instance student) (combinations_courses_list instance student)"

text \<open>
  The loop over the ranked combinations, which both functions contain word for word;
  \<open>best\<close> is the list being built (\<open>all_combinations[student]\<close>, \<open>best_combinations\<close>).
\<close>

fun best_loop ::
  "('a, 'i) Instance \<Rightarrow> ('i, real) dict \<Rightarrow> ('a, real) dict \<Rightarrow> 'a \<Rightarrow> 'i list list \<Rightarrow> real \<Rightarrow>
   'i list list \<Rightarrow> 'i list list option" where
  "best_loop instance prices initial_budgets student [] max_valuation best = Some best"
| "best_loop instance prices initial_budgets student (combination # rest) max_valuation best =
     (case bundle_price prices combination of
        None \<Rightarrow> None
      | Some price_combination \<Rightarrow>
          (case map_of initial_budgets student of
             None \<Rightarrow> None
           | Some budget \<Rightarrow>
               if price_combination \<le> budget
               then (let current_valuation = agent_bundle_value instance student combination in
                     if current_valuation \<ge> max_valuation
                     then best_loop instance prices initial_budgets student rest current_valuation
                            ((if current_valuation > max_valuation then [] else best) @ [combination])
                     else best_loop instance prices initial_budgets student rest max_valuation best)
               else best_loop instance prices initial_budgets student rest max_valuation best))"

text \<open>\<open>if not best: best.append(())\<close>\<close>

definition or_empty_bundle :: "'i list list \<Rightarrow> 'i list list" where
  "or_empty_bundle best = (if best = [] then [[]] else best)"

text \<open>The first loop of \<open>student_best_bundles\<close>, on the dictionary \<open>all_combinations\<close>.\<close>

fun students_loop ::
  "('a, 'i) Instance \<Rightarrow> ('i, real) dict \<Rightarrow> ('a, real) dict \<Rightarrow> 'a list \<Rightarrow>
   ('a, 'i list list) dict \<Rightarrow> ('a, 'i list list) dict option" where
  "students_loop instance prices initial_budgets [] all_combinations = Some all_combinations"
| "students_loop instance prices initial_budgets (student # rest) all_combinations =
     (case map_of all_combinations student of
        None \<Rightarrow> None
      | Some current \<Rightarrow>
          (case best_loop instance prices initial_budgets student
                  (combinations_courses_sorted instance student) (- 1) current of
             None \<Rightarrow> None
           | Some best \<Rightarrow>
               students_loop instance prices initial_budgets rest
                 (AList.update student (or_empty_bundle best) all_combinations)))"

text \<open>
  The second half of both functions: every element of the product of the agents' lists is
  zipped with the agents, the affordable bundles are put into a dictionary, and the
  dictionary is kept when it has as many keys as there are agents.
\<close>

fun valid_allocation_loop ::
  "('i, real) dict \<Rightarrow> ('a, real) dict \<Rightarrow> ('a \<times> 'i list) list \<Rightarrow> ('a, 'i list) dict \<Rightarrow>
   ('a, 'i list) dict option" where
  "valid_allocation_loop prices initial_budgets [] valid_allocation = Some valid_allocation"
| "valid_allocation_loop prices initial_budgets ((student, bundle) # rest) valid_allocation =
     (case bundle_price prices bundle of
        None \<Rightarrow> None
      | Some p \<Rightarrow>
          (case map_of initial_budgets student of
             None \<Rightarrow> None
           | Some budget \<Rightarrow>
               valid_allocation_loop prices initial_budgets rest
                 (if p \<le> budget then AList.update student bundle valid_allocation
                  else valid_allocation)))"

fun valid_allocations_loop ::
  "('a, 'i) Instance \<Rightarrow> ('i, real) dict \<Rightarrow> ('a, real) dict \<Rightarrow> 'i list list list \<Rightarrow>
   ('a, 'i list) dict list \<Rightarrow> ('a, 'i list) dict list option" where
  "valid_allocations_loop instance prices initial_budgets [] valid_allocations = Some valid_allocations"
| "valid_allocations_loop instance prices initial_budgets (allocation # rest) valid_allocations =
     (case valid_allocation_loop prices initial_budgets (zip (agents instance) allocation) [] of
        None \<Rightarrow> None
      | Some valid_allocation \<Rightarrow>
          valid_allocations_loop instance prices initial_budgets rest
            (if length valid_allocation = length (agents instance)
             then valid_allocations @ [valid_allocation] else valid_allocations))"

text \<open>
  \<open>student_best_bundles\<close>. The dictionary \<open>all_combinations\<close> starts with the empty list
  for every agent; \<open>product_lists\<close> is \<open>itertools.product\<close> (the first list varies slowest).
\<close>

definition student_best_bundles ::
  "('i, real) dict \<Rightarrow> ('a, 'i) Instance \<Rightarrow> ('a, real) dict \<Rightarrow> ('a, 'i list) dict list option" where
  "student_best_bundles prices instance initial_budgets =
     (case students_loop instance prices initial_budgets (agents instance)
             (fold (\<lambda>student d. AList.update student [] d) (agents instance) []) of
        None \<Rightarrow> None
      | Some all_combinations \<Rightarrow>
          valid_allocations_loop instance prices initial_budgets
            (product_lists (map snd all_combinations)) [])"

definition compute_best_bundles_for_student ::
  "'a \<Rightarrow> ('a, 'i) Instance \<Rightarrow> ('i, real) dict \<Rightarrow> ('a, real) dict \<Rightarrow> ('a \<times> 'i list list) option" where
  "compute_best_bundles_for_student student instance prices initial_budgets =
     (case best_loop instance prices initial_budgets student
             (combinations_courses_sorted instance student) (- 1) [] of
        None \<Rightarrow> None
      | Some best_combinations \<Rightarrow> Some (student, or_empty_bundle best_combinations))"

text \<open>
  \<open>student_best_bundles_with_threads\<close>. Every agent's task is submitted to the pool; the
  tasks only read their arguments, so the value of a future is the value of the call, and
  the futures are read in the order of the agents. \<open>future.result()\<close> raises what the task
  raised.
\<close>

fun futures_loop ::
  "('a \<times> 'i list list) option list \<Rightarrow> ('a, 'i list list) dict \<Rightarrow> ('a, 'i list list) dict option" where
  "futures_loop [] all_combinations = Some all_combinations"
| "futures_loop (future # rest) all_combinations =
     (case future of
        None \<Rightarrow> None
      | Some (student, best_combinations) \<Rightarrow>
          futures_loop rest (AList.update student best_combinations all_combinations))"

definition student_best_bundles_with_threads ::
  "('i, real) dict \<Rightarrow> ('a, 'i) Instance \<Rightarrow> ('a, real) dict \<Rightarrow> ('a, 'i list) dict list option" where
  "student_best_bundles_with_threads prices instance initial_budgets =
     (case futures_loop
             (map (\<lambda>student. compute_best_bundles_for_student student instance prices initial_budgets)
                (agents instance)) [] of
        None \<Rightarrow> None
      | Some all_combinations \<Rightarrow>
          valid_allocations_loop instance prices initial_budgets
            (product_lists (map snd all_combinations)) [])"

subsection \<open>Window mode (ACEEI.py)\<close>

text \<open>The key of the ranking of \<open>student_best_bundle_per_budget\<close>, with \<open>large_num\<close>.\<close>

definition valuation_function :: "('a, 'i) Instance \<Rightarrow> 'a \<Rightarrow> 'i list \<Rightarrow> real" where
  "valuation_function instance student combination =
     agent_bundle_value instance student combination +
       (if length combination = agent_capacity instance student
        then agent_maximum_value instance student else 0)"

definition combinations_courses_sorted_window :: "('a, 'i) Instance \<Rightarrow> 'a \<Rightarrow> 'i list list" where
  "combinations_courses_sorted_window instance student =
     sorted_reverse (valuation_function instance student) (combinations_courses_list instance student)"

text \<open>
  The walk over the ranked combinations; \<open>min_price\<close> is \<open>None\<close> for \<open>float('inf')\<close>, and
  \<open>recorded\<close> is the agent's dictionary from budgets to bundles. The \<open>break\<close> ends the walk.
\<close>

fun window_loop ::
  "('i, real) dict \<Rightarrow> real \<Rightarrow> real \<Rightarrow> 'i list list \<Rightarrow> real option \<Rightarrow> (real, 'i list) dict \<Rightarrow>
   (real, 'i list) dict option" where
  "window_loop prices min_budget max_budget [] min_price recorded = Some recorded"
| "window_loop prices min_budget max_budget (combination # rest) min_price recorded =
     (case bundle_price prices combination of
        None \<Rightarrow> None
      | Some price_combination \<Rightarrow>
          if price_combination \<le> max_budget
          then (if price_combination \<le> min_budget
                then Some (AList.update min_budget combination recorded)
                else if (case min_price of None \<Rightarrow> True | Some m \<Rightarrow> price_combination < m)
                then window_loop prices min_budget max_budget rest (Some price_combination)
                       (AList.update price_combination combination recorded)
                else window_loop prices min_budget max_budget rest min_price recorded)
          else window_loop prices min_budget max_budget rest min_price recorded)"

fun per_budget_loop ::
  "('a, 'i) Instance \<Rightarrow> ('i, real) dict \<Rightarrow> real \<Rightarrow> ('a, real) dict \<Rightarrow> 'a list \<Rightarrow>
   ('a, (real, 'i list) dict) dict \<Rightarrow> ('a, (real, 'i list) dict) dict option" where
  "per_budget_loop instance prices epsilon initial_budgets [] best_bundle_per_budget =
     Some best_bundle_per_budget"
| "per_budget_loop instance prices epsilon initial_budgets (student # rest) best_bundle_per_budget =
     (case map_of initial_budgets student of
        None \<Rightarrow> None
      | Some budget \<Rightarrow>
          (case window_loop prices (budget - epsilon) (budget + epsilon)
                  (combinations_courses_sorted_window instance student) None
                  (case map_of best_bundle_per_budget student of None \<Rightarrow> [] | Some d \<Rightarrow> d) of
             None \<Rightarrow> None
           | Some recorded \<Rightarrow>
               per_budget_loop instance prices epsilon initial_budgets rest
                 (AList.update student recorded best_bundle_per_budget)))"

definition student_best_bundle_per_budget ::
  "('i, real) dict \<Rightarrow> ('a, 'i) Instance \<Rightarrow> real \<Rightarrow> ('a, real) dict \<Rightarrow>
   ('a, (real, 'i list) dict) dict option" where
  "student_best_bundle_per_budget prices instance epsilon initial_budgets =
     per_budget_loop instance prices epsilon initial_budgets (agents instance)
       (fold (\<lambda>student d. AList.update student [] d) (agents instance) [])"

text \<open>
  The window mode in the words of the specification, to be compared with \<open>window_loop\<close>:
  walking the ranked combinations, the first one priced at or below \<open>lo\<close> (the budget
  minus epsilon) is recorded under the key \<open>lo\<close> and ends the walk; any other one is
  recorded under its price when the price is above \<open>lo\<close>, at most \<open>hi\<close> (the budget
  plus epsilon) and strictly lower than every key recorded before.
\<close>

fun window_spec ::
  "('i list \<Rightarrow> real) \<Rightarrow> real \<Rightarrow> real \<Rightarrow> 'i list list \<Rightarrow> (real, 'i list) dict \<Rightarrow> (real, 'i list) dict" where
  "window_spec price lo hi [] recorded = recorded"
| "window_spec price lo hi (combination # rest) recorded =
     (if price combination \<le> lo then recorded @ [(lo, combination)]
      else if lo < price combination \<and> price combination \<le> hi \<and>
              (\<forall>(k, d) \<in> set recorded. price combination < k)
      then window_spec price lo hi rest (recorded @ [(price combination, combination)])
      else window_spec price lo hi rest recorded)"

section \<open>Equivalent prices and neighbors (tabu\_search.py)\<close>

text \<open>
  The two closures built by \<open>find_all_equivalent_prices\<close>, as functions of the price
  vector \<open>p\<close>: \<open>sum(p[key] for key in keys) <= initial_budgets[agent]\<close> and the same with
  \<open>>\<close>. A call raises KeyError (\<open>None\<close>) on a missing price or budget.
\<close>

type_synonym 'i constraint = "('i, real) dict \<Rightarrow> bool option"

definition budget_le :: "('a, real) dict \<Rightarrow> 'a \<Rightarrow> 'i list \<Rightarrow> 'i constraint" where
  "budget_le initial_budgets agent keys p =
     (case bundle_price p keys of
        None \<Rightarrow> None
      | Some s \<Rightarrow> (case map_of initial_budgets agent of None \<Rightarrow> None | Some b \<Rightarrow> Some (s \<le> b)))"

definition budget_gt :: "('a, real) dict \<Rightarrow> 'a \<Rightarrow> 'i list \<Rightarrow> 'i constraint" where
  "budget_gt initial_budgets agent keys p =
     (case bundle_price p keys of
        None \<Rightarrow> None
      | Some s \<Rightarrow> (case map_of initial_budgets agent of None \<Rightarrow> None | Some b \<Rightarrow> Some (s > b)))"

text \<open>The first loop: one constraint per agent, on the bundle \<open>allocation[student]\<close>.\<close>

fun adherence_loop ::
  "('a, real) dict \<Rightarrow> ('a, 'i list) dict \<Rightarrow> 'a list \<Rightarrow> 'i constraint list \<Rightarrow>
   'i constraint list option" where
  "adherence_loop initial_budgets allocation [] equivalent_prices = Some equivalent_prices"
| "adherence_loop initial_budgets allocation (student # rest) equivalent_prices =
     (case map_of allocation student of
        None \<Rightarrow> None
      | Some keys \<Rightarrow>
          adherence_loop initial_budgets allocation rest
            (equivalent_prices @ [budget_le initial_budgets student keys]))"

text \<open>
  The loop over the combinations of one agent. The closure appended for a combination
  captures \<open>keys=allocation[student]\<close>, the agent's own bundle, not the combination.
\<close>

fun alternatives_loop ::
  "('a, 'i::linorder) Instance \<Rightarrow> ('a, real) dict \<Rightarrow> 'a \<Rightarrow> 'i list \<Rightarrow> real \<Rightarrow> 'i list list \<Rightarrow>
   bool \<Rightarrow> 'i constraint list \<Rightarrow> 'i constraint list" where
  "alternatives_loop instance initial_budgets student bundle original_utility [] current_alloc
     equivalent_prices = equivalent_prices"
| "alternatives_loop instance initial_budgets student bundle original_utility (combination # rest)
     current_alloc equivalent_prices =
     (if sort combination = sort bundle
      then alternatives_loop instance initial_budgets student bundle original_utility rest True
             equivalent_prices
      else if current_alloc \<and> length (sort combination) = length (sort bundle)
      then alternatives_loop instance initial_budgets student bundle original_utility rest
             current_alloc equivalent_prices
      else if agent_bundle_value instance student combination \<ge> original_utility
      then alternatives_loop instance initial_budgets student bundle original_utility rest
             current_alloc (equivalent_prices @ [budget_gt initial_budgets student bundle])
      else alternatives_loop instance initial_budgets student bundle original_utility rest
             current_alloc equivalent_prices)"

fun acceptance_loop ::
  "('a, 'i::linorder) Instance \<Rightarrow> ('a, real) dict \<Rightarrow> ('a, 'i list) dict \<Rightarrow> 'a list \<Rightarrow>
   'i constraint list \<Rightarrow> 'i constraint list option" where
  "acceptance_loop instance initial_budgets allocation [] equivalent_prices = Some equivalent_prices"
| "acceptance_loop instance initial_budgets allocation (student # rest) equivalent_prices =
     (case map_of allocation student of
        None \<Rightarrow> None
      | Some bundle \<Rightarrow>
          acceptance_loop instance initial_budgets allocation rest
            (alternatives_loop instance initial_budgets student bundle
               (agent_bundle_value instance student bundle)
               (combinations_courses_list instance student) False equivalent_prices))"

definition find_all_equivalent_prices ::
  "('a, 'i::linorder) Instance \<Rightarrow> ('a, real) dict \<Rightarrow> ('a, 'i list) dict \<Rightarrow>
   'i constraint list option" where
  "find_all_equivalent_prices instance initial_budgets allocation =
     (case adherence_loop initial_budgets allocation (agents instance) [] of
        None \<Rightarrow> None
      | Some equivalent_prices \<Rightarrow>
          acceptance_loop instance initial_budgets allocation (agents instance) equivalent_prices)"

text \<open>
  \<open>all(f(p) for f in sublist)\<close> and \<open>any(all(...) for sublist in history)\<close>: both stop at
  the first deciding element, and raise when a constraint they call raises.
\<close>

fun all_hold :: "'i constraint list \<Rightarrow> ('i, real) dict \<Rightarrow> bool option" where
  "all_hold [] p = Some True"
| "all_hold (f # fs) p =
     (case f p of None \<Rightarrow> None | Some True \<Rightarrow> all_hold fs p | Some False \<Rightarrow> Some False)"

fun is_tabu :: "'i constraint list list \<Rightarrow> ('i, real) dict \<Rightarrow> bool option" where
  "is_tabu [] p = Some False"
| "is_tabu (sublist # history) p =
     (case all_hold sublist p of
        None \<Rightarrow> None
      | Some True \<Rightarrow> Some True
      | Some False \<Rightarrow> is_tabu history p)"

subsection \<open>Gradient neighbors\<close>

text \<open>
  The inner loop of \<open>find_gradient_neighbors\<close> over \<open>prices.items()\<close>; \<open>updated_prices\<close> is
  one dictionary, created before the loop over \<open>delta\<close> and overwritten for every step size.
  The set \<open>delta\<close> is the list of its elements in the order of iteration.
\<close>

fun gradient_prices_loop ::
  "real \<Rightarrow> ('i, int) dict \<Rightarrow> ('i \<times> real) list \<Rightarrow> ('i, real) dict \<Rightarrow> ('i, real) dict" where
  "gradient_prices_loop d excess_demand_vector [] updated_prices = updated_prices"
| "gradient_prices_loop d excess_demand_vector ((course, price) # rest) updated_prices =
     gradient_prices_loop d excess_demand_vector rest
       (AList.update course
          (max 0 (price + d * (case map_of excess_demand_vector course of
                                 None \<Rightarrow> 0 | Some e \<Rightarrow> real_of_int e)))
          updated_prices)"

fun gradient_loop ::
  "('i, real) dict \<Rightarrow> real list \<Rightarrow> ('i, int) dict \<Rightarrow> 'i constraint list list \<Rightarrow> ('i, real) dict \<Rightarrow>
   ('i, real) dict list \<Rightarrow> ('i, real) dict list option" where
  "gradient_loop prices [] excess_demand_vector history updated_prices new_neighbors =
     Some new_neighbors"
| "gradient_loop prices (d # delta) excess_demand_vector history updated_prices new_neighbors =
     (let updated = gradient_prices_loop d excess_demand_vector prices updated_prices in
      case is_tabu history updated of
        None \<Rightarrow> None
      | Some tabu \<Rightarrow>
          gradient_loop prices delta excess_demand_vector history updated
            (if \<not> tabu then new_neighbors @ [updated] else new_neighbors))"

definition find_gradient_neighbors ::
  "('i, real) dict \<Rightarrow> real list \<Rightarrow> ('i, int) dict \<Rightarrow> 'i constraint list list \<Rightarrow>
   ('i, real) dict list option" where
  "find_gradient_neighbors prices delta excess_demand_vector history =
     gradient_loop prices delta excess_demand_vector history [] []"

subsection \<open>Individual price adjustment neighbors\<close>

text \<open>
  The loop of \<open>differ_in_one_value\<close> over the keys of the original allocation; \<open>None\<close>
  is the early \<open>return False\<close>, otherwise \<open>diff_count\<close> and \<open>diff_course\<close> are returned.
\<close>

fun differ_loop ::
  "('a, 'i list) dict \<Rightarrow> ('a, 'i list) dict \<Rightarrow> 'a list \<Rightarrow> nat \<Rightarrow> 'a option \<Rightarrow> (nat \<times> 'a option) option" where
  "differ_loop original_allocation new_allocation [] diff_count diff_course =
     Some (diff_count, diff_course)"
| "differ_loop original_allocation new_allocation (key # rest) diff_count diff_course =
     (if (case (map_of original_allocation key, map_of new_allocation key) of
            (Some a, Some b) \<Rightarrow> a \<noteq> b | _ \<Rightarrow> False)
      then (if diff_count + 1 > 1 then None
            else differ_loop original_allocation new_allocation rest (diff_count + 1) (Some key))
      else differ_loop original_allocation new_allocation rest diff_count diff_course)"

definition differ_in_one_value ::
  "('a, 'i list) dict \<Rightarrow> ('a, 'i list) dict \<Rightarrow> 'i \<Rightarrow> bool" where
  "differ_in_one_value original_allocation new_allocation course =
     (case differ_loop original_allocation new_allocation (map fst original_allocation) 0 None of
        None \<Rightarrow> False
      | Some (diff_count, diff_course) \<Rightarrow>
          diff_count = 1 \<and>
          (case diff_course of
             None \<Rightarrow> False
           | Some k \<Rightarrow>
               (case (map_of original_allocation k, map_of new_allocation k) of
                  (Some a, Some b) \<Rightarrow> course \<in> set a \<and> course \<notin> set b
                | _ \<Rightarrow> False)))"

text \<open>\<open>np.sqrt(0.5)\<close>\<close>

definition sqrt_half :: real where
  "sqrt_half = sqrt (1 / 2)"

text \<open>
  The loop \<open>for _ in range(10)\<close> for a course of positive excess demand: the course's
  price grows by \<open>np.sqrt(0.5)\<close>; a tabu vector is skipped (\<open>continue\<close>); otherwise one
  copy of the vector is appended for every new allocation that differs in one value.
\<close>

fun steps_loop ::
  "('a, 'i) Instance \<Rightarrow> 'i constraint list list \<Rightarrow> ('a, real) dict \<Rightarrow> ('a, 'i list) dict \<Rightarrow> bool \<Rightarrow>
   'i \<Rightarrow> nat \<Rightarrow> ('i, real) dict \<Rightarrow> ('i, real) dict list \<Rightarrow> ('i, real) dict list option" where
  "steps_loop instance history initial_budgets allocation use_threads course 0 updated_prices
     new_neighbors = Some new_neighbors"
| "steps_loop instance history initial_budgets allocation use_threads course (Suc n) updated_prices
     new_neighbors =
     (case map_of updated_prices course of
        None \<Rightarrow> None
      | Some price \<Rightarrow>
          (let updated = AList.update course (price + sqrt_half) updated_prices in
           case is_tabu history updated of
             None \<Rightarrow> None
           | Some True \<Rightarrow>
               steps_loop instance history initial_budgets allocation use_threads course n updated
                 new_neighbors
           | Some False \<Rightarrow>
               (case (if use_threads
                      then student_best_bundles_with_threads updated instance initial_budgets
                      else student_best_bundles updated instance initial_budgets) of
                  None \<Rightarrow> None
                | Some new_allocations \<Rightarrow>
                    steps_loop instance history initial_budgets allocation use_threads course n
                      updated
                      (new_neighbors @
                         map (\<lambda>new_allocation. updated)
                           (filter (\<lambda>new_allocation.
                              differ_in_one_value allocation new_allocation course)
                              new_allocations)))))"

text \<open>The loop over \<open>excess_demand_vector.items()\<close>, with the \<open>break\<close> at 35 neighbors.\<close>

fun adjustment_loop ::
  "('a, 'i) Instance \<Rightarrow> 'i constraint list list \<Rightarrow> ('i, real) dict \<Rightarrow> ('a, real) dict \<Rightarrow>
   ('a, 'i list) dict \<Rightarrow> bool \<Rightarrow> ('i \<times> int) list \<Rightarrow> ('i, real) dict list \<Rightarrow>
   ('i, real) dict list option" where
  "adjustment_loop instance history prices initial_budgets allocation use_threads [] new_neighbors =
     Some new_neighbors"
| "adjustment_loop instance history prices initial_budgets allocation use_threads
     ((course, excess) # rest) new_neighbors =
     (if length new_neighbors \<ge> 35 then Some new_neighbors
      else if excess = 0
      then adjustment_loop instance history prices initial_budgets allocation use_threads rest
             new_neighbors
      else if excess > 0
      then (case steps_loop instance history initial_budgets allocation use_threads course 10
                   prices new_neighbors of
              None \<Rightarrow> None
            | Some neighbors \<Rightarrow>
                adjustment_loop instance history prices initial_budgets allocation use_threads rest
                  neighbors)
      else (let updated_prices = AList.update course 0 prices in
            case is_tabu history updated_prices of
              None \<Rightarrow> None
            | Some tabu \<Rightarrow>
                adjustment_loop instance history prices initial_budgets allocation use_threads rest
                  (if \<not> tabu then new_neighbors @ [updated_prices] else new_neighbors)))"

definition find_individual_price_adjustment_neighbors ::
  "('a, 'i) Instance \<Rightarrow> 'i constraint list list \<Rightarrow> ('i, real) dict \<Rightarrow> ('i, int) dict \<Rightarrow>
   ('a, real) dict \<Rightarrow> ('a, 'i list) dict \<Rightarrow> bool \<Rightarrow> ('i, real) dict list option" where
  "find_individual_price_adjustment_neighbors instance history prices excess_demand_vector
     initial_budgets allocation use_threads =
     adjustment_loop instance history prices initial_budgets allocation use_threads
       excess_demand_vector []"

section \<open>The price update of find\_ACEEI\_with\_EFTB (ACEEI.py)\<close>

text \<open>
  Step 4 of the loop, \<open>for key in prices: prices[key] += delta * excess_demand_per_course[key]\<close>.
  The excess demand comes from the linear program, which is not part of the sources: it
  is an argument here, a dictionary from items to signed numbers.
\<close>

fun price_update_loop ::
  "'i list \<Rightarrow> real \<Rightarrow> ('i, real) dict \<Rightarrow> ('i, real) dict \<Rightarrow> ('i, real) dict option" where
  "price_update_loop [] delta excess_demand_per_course prices = Some prices"
| "price_update_loop (key # rest) delta excess_demand_per_course prices =
     (case map_of prices key of
        None \<Rightarrow> None
      | Some price \<Rightarrow>
          (case map_of excess_demand_per_course key of
             None \<Rightarrow> None
           | Some e \<Rightarrow>
               price_update_loop rest delta excess_demand_per_course
                 (AList.update key (price + delta * e) prices)))"

definition update_prices ::
  "('i, real) dict \<Rightarrow> real \<Rightarrow> ('i, real) dict \<Rightarrow> ('i, real) dict option" where
  "update_prices prices delta excess_demand_per_course =
     price_update_loop (map fst prices) delta excess_demand_per_course prices"

section \<open>Example inputs\<close>

text \<open>The instance and the allocation of the doctest of \<open>excess_demand\<close>.\<close>

definition val_ami :: "string \<Rightarrow> real" where
  "val_ami c = (if c = ''x'' then 3 else if c = ''y'' then 4 else if c = ''z'' then 2 else 0)"

definition val_tami :: "string \<Rightarrow> real" where
  "val_tami c = (if c = ''x'' then 4 else if c = ''y'' then 3 else if c = ''z'' then 2 else 0)"

definition instance_ed :: "(string, string) Instance" where
  "instance_ed =
     \<lparr> agents = [''ami'', ''tami''],
       items = [''x'', ''y'', ''z''],
       agent_capacity = (\<lambda>a. 2),
       item_capacity = (\<lambda>c. if c = ''x'' then 2 else if c = ''y'' then 1 else 3),
       agent_bundle_value =
         (\<lambda>a b. sum_list (map (if a = ''ami'' then val_ami else val_tami) b)),
       agent_maximum_value = (\<lambda>a. 7) \<rparr>"

definition allocation_ed :: "(string, string list) dict" where
  "allocation_ed = [(''ami'', [''x'', ''y'']), (''tami'', [''x'', ''y''])]"

definition prices_ed :: "(string, real) dict" where
  "prices_ed = [(''x'', 0), (''y'', 2), (''z'', 0)]"

text \<open>The instance of the second doctest of \<open>student_best_bundle_per_budget\<close>.\<close>

definition val_w :: "string \<Rightarrow> string \<Rightarrow> real" where
  "val_w a c =
     (if a = ''Alice'' then (if c = ''x'' then 5 else if c = ''y'' then 4 else 1)
      else (if c = ''x'' then 4 else if c = ''y'' then 6 else 3))"

definition instance_w :: "(string, string) Instance" where
  "instance_w =
     \<lparr> agents = [''Alice'', ''Bob''],
       items = [''x'', ''y'', ''z''],
       agent_capacity = (\<lambda>a. 2),
       item_capacity = (\<lambda>c. if c = ''z'' then 2 else 1),
       agent_bundle_value = (\<lambda>a b. sum_list (map (val_w a) b)),
       agent_maximum_value = (\<lambda>a. if a = ''Alice'' then 9 else 10) \<rparr>"

text \<open>The instance, prices, budgets and result of the first doctest of \<open>student_best_bundles\<close>.\<close>

definition val_t :: "string \<Rightarrow> string \<Rightarrow> real" where
  "val_t a c =
     (if a = ''Alice'' then (if c = ''x'' then 3 else if c = ''y'' then 4 else 2)
      else if a = ''Bob'' then (if c = ''x'' then 4 else if c = ''y'' then 3 else 2)
      else (if c = ''x'' then 2 else if c = ''y'' then 4 else 3))"

definition instance_t :: "(string, string) Instance" where
  "instance_t =
     \<lparr> agents = [''Alice'', ''Bob'', ''Eve''],
       items = [''x'', ''y'', ''z''],
       agent_capacity = (\<lambda>a. 2),
       item_capacity = (\<lambda>c. if c = ''x'' then 2 else if c = ''y'' then 1 else 3),
       agent_bundle_value = (\<lambda>a b. sum_list (map (val_t a) b)),
       agent_maximum_value = (\<lambda>a. 7) \<rparr>"

definition prices_t :: "(string, real) dict" where
  "prices_t = [(''x'', 1), (''y'', 2), (''z'', 1)]"

definition budgets_t :: "(string, real) dict" where
  "budgets_t = [(''Alice'', 5), (''Bob'', 4), (''Eve'', 3)]"

definition allocation_t :: "(string, string list) dict" where
  "allocation_t = [(''Alice'', [''x'', ''y'']), (''Bob'', [''x'', ''y'']), (''Eve'', [''y'', ''z''])]"

text \<open>
  The instance and budgets of the fifth doctest of \<open>find_ACEEI_with_EFTB\<close> (one course,
  two agents), with the course priced above both budgets.
\<close>

definition instance_e :: "(string, string) Instance" where
  "instance_e =
     \<lparr> agents = [''avi'', ''beni''],
       items = [''x''],
       agent_capacity = (\<lambda>a. 1),
       item_capacity = (\<lambda>c. 1),
       agent_bundle_value = (\<lambda>a b. sum_list (map (\<lambda>c. if a = ''avi'' then 2 else 3) b)),
       agent_maximum_value = (\<lambda>a. if a = ''avi'' then 2 else 3) \<rparr>"

definition prices_e :: "(string, real) dict" where
  "prices_e = [(''x'', 2)]"

definition budgets_e :: "(string, real) dict" where
  "budgets_e = [(''avi'', 11 / 10), (''beni'', 1)]"

text \<open>The prices and budgets of the second doctest of \<open>student_best_bundle_per_budget\<close>, and the price of a bundle at these prices.\<close>

definition prices_w :: "(string, real) dict" where
  "prices_w = [(''x'', 3 / 2), (''y'', 2), (''z'', 0)]"

definition budgets_w :: "(string, real) dict" where
  "budgets_w = [(''Alice'', 5), (''Bob'', 4)]"

definition price_w :: "string list \<Rightarrow> real" where
  "price_w c = sum_list (map (\<lambda>i. if i = ''x'' then 3 / 2 else if i = ''y'' then 2 else 0) c)"

text \<open>
  One agent, two courses: x is worth more but costs more than the budget, so the agent's
  best bundle at these prices is y.
\<close>

definition instance_p :: "(string, string) Instance" where
  "instance_p =
     \<lparr> agents = [''A''],
       items = [''x'', ''y''],
       agent_capacity = (\<lambda>a. 1),
       item_capacity = (\<lambda>c. 1),
       agent_bundle_value = (\<lambda>a b. sum_list (map (\<lambda>c. if c = ''x'' then 5 else 3) b)),
       agent_maximum_value = (\<lambda>a. 5) \<rparr>"

definition prices_p :: "(string, real) dict" where
  "prices_p = [(''x'', 2), (''y'', 1)]"

definition budgets_p :: "(string, real) dict" where
  "budgets_p = [(''A'', 1)]"

definition allocation_p :: "(string, string list) dict" where
  "allocation_p = [(''A'', [''y''])]"

text \<open>The excess demand of the first doctest of \<open>find_gradient_neighbors\<close>.\<close>

definition excess_t :: "(string, int) dict" where
  "excess_t = [(''x'', 0), (''y'', 2), (''z'', - 2)]"

text \<open>
  One agent with capacity 1 and budget 0, five courses of equal value: c, whose price is
  the argument of \<open>prices_n\<close>, and four free courses. The agent holds c.
\<close>

definition instance_n :: "(string, string) Instance" where
  "instance_n =
     \<lparr> agents = [''A''],
       items = [''c'', ''d'', ''e'', ''f'', ''g''],
       agent_capacity = (\<lambda>a. 1),
       item_capacity = (\<lambda>c. 1),
       agent_bundle_value = (\<lambda>a b. real (length b)),
       agent_maximum_value = (\<lambda>a. 1) \<rparr>"

definition prices_n :: "real \<Rightarrow> (string, real) dict" where
  "prices_n v = [(''c'', v), (''d'', 0), (''e'', 0), (''f'', 0), (''g'', 0)]"

definition budgets_n :: "(string, real) dict" where
  "budgets_n = [(''A'', 0)]"

definition allocation_n :: "(string, string list) dict" where
  "allocation_n = [(''A'', [''c''])]"

section \<open>Properties of the excess demand\<close>

lemma sum_allocation_count:
  "sum_allocation c al n = n + int (length (filter (\<lambda>(s, b). c \<in> set b) al))"
  by (induction al arbitrary: n) auto

lemma excess_demand_loop_lookup:
  "map_of (excess_demand_loop inst al cs z) c =
     (if c \<in> set cs then Some (sum_allocation c al 0 - item_capacity inst c) else map_of z c)"
  by (induction cs arbitrary: z) (auto simp: update_conv')

lemma excess_demand_loop_keys:
  "fst ` set (excess_demand_loop inst al cs z) = fst ` set z \<union> set cs"
proof (induction cs arbitrary: z)
  case Nil
  show ?case by simp
next
  case (Cons c cs)
  have "fst ` set (excess_demand_loop inst al (c # cs) z) =
      ({c} \<union> fst ` set z) \<union> set cs"
    by (simp only: excess_demand_loop.simps Cons.IH dom_update)
  then show ?case by auto
qed

lemma excess_demand_loop_distinct:
  "distinct (map fst z) \<Longrightarrow> distinct (map fst (excess_demand_loop inst al cs z))"
  by (induction cs arbitrary: z) (auto simp: distinct_update)

lemma excess_demand_lookup:
  "map_of (excess_demand inst al) c =
     (if c \<in> set (items inst)
      then Some (int (length (filter (\<lambda>(s, b). c \<in> set b) al)) - item_capacity inst c)
      else None)"
  by (simp add: excess_demand_def excess_demand_loop_lookup sum_allocation_count)

lemma sum_allocation_perm:
  "mset al' = mset al \<Longrightarrow> sum_allocation c al' 0 = sum_allocation c al 0"
proof -
  assume "mset al' = mset al"
  then have "mset (filter (\<lambda>(s, b). c \<in> set b) al') = mset (filter (\<lambda>(s, b). c \<in> set b) al)"
    by simp
  then have "size (mset (filter (\<lambda>(s, b). c \<in> set b) al')) =
      size (mset (filter (\<lambda>(s, b). c \<in> set b) al))"
    by (rule arg_cong [where f = size])
  then have "length (filter (\<lambda>(s, b). c \<in> set b) al') = length (filter (\<lambda>(s, b). c \<in> set b) al)"
    unfolding size_mset .
  then show ?thesis by (simp add: sum_allocation_count)
qed

lemma excess_demand_loop_perm:
  "mset al' = mset al \<Longrightarrow> excess_demand_loop inst al' cs z = excess_demand_loop inst al cs z"
proof (induction cs arbitrary: z)
  case Nil
  show ?case by simp
next
  case (Cons c cs)
  have "sum_allocation c al' 0 = sum_allocation c al 0"
    using Cons.prems by (rule sum_allocation_perm)
  with Cons show ?case by simp
qed

lemma clipped_loop_priced:
  "clipped_loop prices zs acc = Some cz \<Longrightarrow> (c, zc) \<in> set zs \<Longrightarrow> \<exists>p. map_of prices c = Some p"
  by (induction zs arbitrary: acc) (auto split: option.splits)

lemma clipped_loop_lookup:
  "clipped_loop prices zs acc = Some cz \<Longrightarrow> distinct (map fst zs) \<Longrightarrow>
   map_of cz c =
     (case map_of zs c of
        None \<Rightarrow> map_of acc c
      | Some zc \<Rightarrow> Some (if the (map_of prices c) = 0 then max 0 zc else zc))"
proof (induction zs arbitrary: acc)
  case Nil
  then show ?case by simp
next
  case (Cons e zs)
  obtain k v where e: "e = (k, v)" by (cases e)
  from Cons.prems(1) e obtain p where p: "map_of prices k = Some p"
    and rest: "clipped_loop prices zs (AList.update k (if p = 0 then max 0 v else v) acc) = Some cz"
    by (auto split: option.splits)
  from Cons.prems(2) e have d: "distinct (map fst zs)" and k: "map_of zs k = None"
    by (auto simp: map_of_eq_None_iff)
  show ?case
    using Cons.IH [OF rest d] p k e by (auto simp: update_conv' split: option.splits)
qed

lemma clipped_loop_total:
  "\<forall>c \<in> fst ` set zs. map_of prices c \<noteq> None \<Longrightarrow> \<exists>cz. clipped_loop prices zs acc = Some cz"
  by (induction zs arbitrary: acc) (auto split: option.splits)

lemma excess_demand_keys: "fst ` set (excess_demand inst al) = set (items inst)"
  by (simp add: excess_demand_def excess_demand_loop_keys)

lemma excess_demand_distinct: "distinct (map fst (excess_demand inst al))"
  by (simp add: excess_demand_def excess_demand_loop_distinct)

text \<open>
  Claim C7. Whenever \<open>clipped_excess_demand\<close> returns, its value on an item of the
  instance is the excess demand of the item when the item's price is not zero, and the
  maximum of 0 and the excess demand when the price is exactly zero; so the clipped value
  of an item priced zero is never negative. It returns (no KeyError) whenever every item
  of the instance has a price.
\<close>

theorem clipped_excess_demand_correct:
  "(set (items inst) \<subseteq> fst ` set prices \<longrightarrow>
      (\<exists>cz. clipped_excess_demand inst prices al = Some cz)) \<and>
   (\<forall>cz c. clipped_excess_demand inst prices al = Some cz \<and> c \<in> set (items inst) \<longrightarrow>
      (\<exists>p z. map_of prices c = Some p \<and> map_of (excess_demand inst al) c = Some z \<and>
         (p \<noteq> 0 \<longrightarrow> map_of cz c = Some z) \<and>
         (p = 0 \<longrightarrow> map_of cz c = Some (max 0 z)) \<and>
         (p = 0 \<longrightarrow> (\<exists>v. map_of cz c = Some v \<and> 0 \<le> v))))"
proof (intro conjI impI allI)
  assume "set (items inst) \<subseteq> fst ` set prices"
  then have "\<forall>c \<in> fst ` set (excess_demand inst al). map_of prices c \<noteq> None"
    by (auto simp: excess_demand_keys map_of_eq_None_iff)
  then show "\<exists>cz. clipped_excess_demand inst prices al = Some cz"
    unfolding clipped_excess_demand_def by (rule clipped_loop_total)
next
  fix cz c
  assume a: "clipped_excess_demand inst prices al = Some cz \<and> c \<in> set (items inst)"
  then have run: "clipped_loop prices (excess_demand inst al) [] = Some cz"
    and c: "c \<in> set (items inst)"
    by (simp_all add: clipped_excess_demand_def)
  from c obtain z where z: "map_of (excess_demand inst al) c = Some z"
    by (simp add: excess_demand_lookup)
  then have "(c, z) \<in> set (excess_demand inst al)" by (rule map_of_SomeD)
  with run obtain p where p: "map_of prices c = Some p"
    using clipped_loop_priced by fastforce
  have "map_of cz c = Some (if p = 0 then max 0 z else z)"
    using clipped_loop_lookup [OF run excess_demand_distinct, of c] z p by simp
  with z p show "\<exists>p z. map_of prices c = Some p \<and> map_of (excess_demand inst al) c = Some z \<and>
         (p \<noteq> 0 \<longrightarrow> map_of cz c = Some z) \<and>
         (p = 0 \<longrightarrow> map_of cz c = Some (max 0 z)) \<and>
         (p = 0 \<longrightarrow> (\<exists>v. map_of cz c = Some v \<and> 0 \<le> v))"
    by simp
qed


lemma excess_demand_ed: "excess_demand instance_ed allocation_ed = [(''x'', 0), (''y'', 1), (''z'', - 3)]"
  by (simp add: excess_demand_def instance_ed_def allocation_ed_def)

lemma clipped_ed:
  "clipped_excess_demand instance_ed prices_ed allocation_ed = Some [(''x'', 0), (''y'', 1), (''z'', 0)]"
  by (simp add: clipped_excess_demand_def excess_demand_ed prices_ed_def)

text \<open>The doctest of \<open>excess_demand\<close> with the items x and z priced zero: z is clipped from -3 to 0.\<close>

theorem clipped_excess_demand_correct_witness:
  "set (items instance_ed) \<subseteq> fst ` set prices_ed \<and>
   clipped_excess_demand instance_ed prices_ed allocation_ed = Some [(''x'', 0), (''y'', 1), (''z'', 0)] \<and>
   ''z'' \<in> set (items instance_ed) \<and>
   map_of prices_ed ''z'' = Some 0 \<and>
   map_of (excess_demand instance_ed allocation_ed) ''z'' = Some (- 3) \<and>
   map_of [(''x'', 0), (''y'', 1), (''z'', 0::int)] ''z'' = Some (max 0 (- 3))"
  using clipped_excess_demand_correct [of instance_ed prices_ed allocation_ed]
  by (simp add: clipped_ed excess_demand_ed) (simp add: instance_ed_def prices_ed_def)

lemma count_entries_card:
  assumes "distinct (map fst al)"
  shows "length (filter (\<lambda>(s, b). c \<in> set b) al) =
         card {s. \<exists>b. map_of al s = Some b \<and> c \<in> set b}"
proof -
  let ?P = "\<lambda>(s, b). c \<in> set b"
  from assms have dal: "distinct al" by (simp add: distinct_map)
  from assms have inj: "inj_on fst (set al)" by (simp add: distinct_map)
  have img: "fst ` set (filter ?P al) = {s. \<exists>b. map_of al s = Some b \<and> c \<in> set b}"
  proof (intro set_eqI iffI)
    fix s assume "s \<in> fst ` set (filter ?P al)"
    then obtain b where "(s, b) \<in> set al" "c \<in> set b" by auto
    with assms show "s \<in> {s. \<exists>b. map_of al s = Some b \<and> c \<in> set b}" by auto
  next
    fix s assume "s \<in> {s. \<exists>b. map_of al s = Some b \<and> c \<in> set b}"
    then obtain b where "map_of al s = Some b" "c \<in> set b" by auto
    then have "(s, b) \<in> set (filter ?P al)" by (auto dest: map_of_SomeD)
    then show "s \<in> fst ` set (filter ?P al)" by force
  qed
  have "length (filter ?P al) = card (set (filter ?P al))"
    using dal by (simp only: distinct_card distinct_filter)
  also have "\<dots> = card (fst ` set (filter ?P al))"
  proof -
    have "inj_on fst (set (filter ?P al))"
      by (rule inj_on_subset [OF inj]) simp
    then show ?thesis by (simp only: card_image)
  qed
  finally show ?thesis by (simp only: img)
qed

text \<open>
  Claim C8. The keys of the dictionary returned by \<open>excess_demand\<close> are the items of
  the instance; each item is mapped to the number of entries of the allocation whose bundle
  holds it (the number of such agents, the keys of a dictionary being distinct) minus its
  capacity; the result is the same for every order of the entries of the allocation; and
  on the allocation of the doctest it is x: 0, y: 1, z: -3.
\<close>

theorem excess_demand_correct:
  "fst ` set (excess_demand inst al) = set (items inst) \<and>
   (\<forall>c \<in> set (items inst).
      map_of (excess_demand inst al) c =
        Some (int (length (filter (\<lambda>(s, b). c \<in> set b) al)) - item_capacity inst c)) \<and>
   (distinct (map fst al) \<longrightarrow>
      (\<forall>c \<in> set (items inst).
         map_of (excess_demand inst al) c =
           Some (int (card {s. \<exists>b. map_of al s = Some b \<and> c \<in> set b}) - item_capacity inst c))) \<and>
   (\<forall>al'. mset al' = mset al \<longrightarrow> excess_demand inst al' = excess_demand inst al) \<and>
   excess_demand instance_ed allocation_ed = [(''x'', 0), (''y'', 1), (''z'', - 3)]"
proof (intro conjI ballI impI allI)
  show "fst ` set (excess_demand inst al) = set (items inst)" by (rule excess_demand_keys)
next
  fix c assume "c \<in> set (items inst)"
  then show "map_of (excess_demand inst al) c =
        Some (int (length (filter (\<lambda>(s, b). c \<in> set b) al)) - item_capacity inst c)"
    by (simp add: excess_demand_lookup)
next
  fix c assume "distinct (map fst al)" "c \<in> set (items inst)"
  then show "map_of (excess_demand inst al) c =
           Some (int (card {s. \<exists>b. map_of al s = Some b \<and> c \<in> set b}) - item_capacity inst c)"
    by (simp add: excess_demand_lookup count_entries_card)
next
  fix al' assume "mset al' = mset al"
  then show "excess_demand inst al' = excess_demand inst al"
    unfolding excess_demand_def by (rule excess_demand_loop_perm)
next
  show "excess_demand instance_ed allocation_ed = [(''x'', 0), (''y'', 1), (''z'', - 3)]"
    by (rule excess_demand_ed)
qed

text \<open>The item y of the doctest, and the allocation of the doctest with its agents reversed.\<close>

theorem excess_demand_correct_witness:
  "distinct (map fst allocation_ed) \<and> ''y'' \<in> set (items instance_ed) \<and>
   map_of (excess_demand instance_ed allocation_ed) ''y'' =
     Some (int (card {s. \<exists>b. map_of allocation_ed s = Some b \<and> ''y'' \<in> set b}) - 1) \<and>
   mset (rev allocation_ed) = mset allocation_ed \<and>
   excess_demand instance_ed (rev allocation_ed) = excess_demand instance_ed allocation_ed"
proof -
  have d: "distinct (map fst allocation_ed)" by (simp add: allocation_ed_def)
  have y: "''y'' \<in> set (items instance_ed)" by (simp add: instance_ed_def)
  have cap: "item_capacity instance_ed ''y'' = 1" by (simp add: instance_ed_def)
  have m: "mset (rev allocation_ed) = mset allocation_ed" by simp
  from excess_demand_correct [of instance_ed allocation_ed]
  have a: "distinct (map fst allocation_ed) \<longrightarrow>
      (\<forall>c \<in> set (items instance_ed).
         map_of (excess_demand instance_ed allocation_ed) c =
           Some (int (card {s. \<exists>b. map_of allocation_ed s = Some b \<and> c \<in> set b}) -
             item_capacity instance_ed c))"
    and b: "\<forall>al'. mset al' = mset allocation_ed \<longrightarrow>
      excess_demand instance_ed al' = excess_demand instance_ed allocation_ed"
    by blast+
  from a d y cap have "map_of (excess_demand instance_ed allocation_ed) ''y'' =
     Some (int (card {s. \<exists>b. map_of allocation_ed s = Some b \<and> ''y'' \<in> set b}) - 1)"
    by fastforce
  moreover from b m have
    "excess_demand instance_ed (rev allocation_ed) = excess_demand instance_ed allocation_ed"
    by blast
  ultimately show ?thesis using d y m by blast
qed

section \<open>Ranking of the combinations\<close>

lemma sorted_reverse_descending:
  "sorted_wrt (\<lambda>c d. key d \<le> key c) (sorted_reverse key xs)"
proof -
  have "sorted (map (\<lambda>x. - key x) (sort_key (\<lambda>x. - key x) xs))"
    by (rule sorted_sort_key)
  then show ?thesis
    by (simp add: sorted_reverse_def sorted_map)
qed

lemma sorted_reverse_mset: "mset (sorted_reverse key xs) = mset xs"
  by (simp add: sorted_reverse_def)

lemma sorted_reverse_stable:
  "filter (\<lambda>c. key c = k) (sorted_reverse key xs) = filter (\<lambda>c. key c = k) xs"
proof -
  have "filter (\<lambda>c. - key c = - k) (sort_key (\<lambda>x. - key x) xs) = filter (\<lambda>c. - key c = - k) xs"
    by (rule sort_key_stable)
  then show ?thesis by (simp add: sorted_reverse_def)
qed

lemma instance_w_simps:
  "agents instance_w = [''Alice'', ''Bob'']"
  "items instance_w = [''x'', ''y'', ''z'']"
  "agent_capacity instance_w a = 2"
  "agent_bundle_value instance_w a b = sum_list (map (val_w a) b)"
  "agent_maximum_value instance_w a = (if a = ''Alice'' then 9 else 10)"
  by (simp_all add: instance_w_def)

lemma combos_w: "combinations_courses_list instance_w a =
   [[''x''], [''y''], [''z''], [''x'', ''y''], [''x'', ''z''], [''y'', ''z'']]"
  by (simp add: combinations_courses_list_def instance_w_simps upt_rec numeral_2_eq_2)

lemma ranking_fixed_w: "combinations_courses_sorted instance_w ''Alice'' =
   [[''x'', ''y''], [''x'', ''z''], [''x''], [''y'', ''z''], [''y''], [''z'']]"
  by (simp add: combinations_courses_sorted_def combos_w sorted_reverse_def instance_w_simps val_w_def)

text \<open>
  Claim C3 as stated fails for the fixed-budget mode: for Alice the ranking of
  \<open>student_best_bundles\<close> puts the single course x (value 5, key 5 with the bonus rule)
  before the full bundle y, z (value 5, key 14 with the bonus rule).
\<close>

theorem ranking_counterexample:
  "\<not> sorted_wrt (\<lambda>c d. valuation_function instance_w ''Alice'' d \<le> valuation_function instance_w ''Alice'' c)
       (combinations_courses_sorted instance_w ''Alice'')"
  by (simp add: ranking_fixed_w valuation_function_def instance_w_simps val_w_def)

text \<open>
  Claim C3, amended. In window mode (\<open>student_best_bundle_per_budget\<close>) the combinations
  of an agent are ranked in descending order of the key \<open>agent_bundle_value\<close> plus
  \<open>agent_maximum_value\<close> added exactly when the size of the combination is the agent's
  capacity. In fixed-budget mode (\<open>student_best_bundles\<close>,
  \<open>compute_best_bundles_for_student\<close>) they are ranked in descending order of
  \<open>agent_bundle_value\<close> alone, with no bonus. Both rankings are permutations of the
  enumerated combinations.
\<close>

theorem ranking_descending:
  "sorted_wrt (\<lambda>c d. valuation_function inst student d \<le> valuation_function inst student c)
     (combinations_courses_sorted_window inst student) \<and>
   mset (combinations_courses_sorted_window inst student) = mset (combinations_courses_list inst student) \<and>
   valuation_function inst student combination =
     agent_bundle_value inst student combination +
       (if length combination = agent_capacity inst student then agent_maximum_value inst student else 0) \<and>
   sorted_wrt (\<lambda>c d. agent_bundle_value inst student d \<le> agent_bundle_value inst student c)
     (combinations_courses_sorted inst student) \<and>
   mset (combinations_courses_sorted inst student) = mset (combinations_courses_list inst student)"
proof (intro conjI)
  show "sorted_wrt (\<lambda>c d. valuation_function inst student d \<le> valuation_function inst student c)
     (combinations_courses_sorted_window inst student)"
    unfolding combinations_courses_sorted_window_def by (rule sorted_reverse_descending)
  show "mset (combinations_courses_sorted_window inst student) =
      mset (combinations_courses_list inst student)"
    unfolding combinations_courses_sorted_window_def by (rule sorted_reverse_mset)
  show "valuation_function inst student combination =
     agent_bundle_value inst student combination +
       (if length combination = agent_capacity inst student then agent_maximum_value inst student else 0)"
    by (simp only: valuation_function_def)
  show "sorted_wrt (\<lambda>c d. agent_bundle_value inst student d \<le> agent_bundle_value inst student c)
     (combinations_courses_sorted inst student)"
    unfolding combinations_courses_sorted_def by (rule sorted_reverse_descending)
  show "mset (combinations_courses_sorted inst student) = mset (combinations_courses_list inst student)"
    unfolding combinations_courses_sorted_def by (rule sorted_reverse_mset)
qed

section \<open>The allocations returned in fixed-budget mode\<close>

lemma set_update_subset: "set (AList.update k v al) \<subseteq> insert (k, v) (set al)"
  by (induction al) auto

lemma valid_allocation_loop_entries:
  "valid_allocation_loop prices budgets zs va = Some va' \<Longrightarrow> set va' \<subseteq> set va \<union> set zs"
proof (induction zs arbitrary: va)
  case Nil
  then show ?case by simp
next
  case (Cons e zs)
  obtain s b where e: "e = (s, b)" by (cases e)
  from Cons.prems e obtain p bud :: real where
    rest: "valid_allocation_loop prices budgets zs
             (if p \<le> bud then AList.update s b va else va) = Some va'"
    by (auto split: option.splits)
  have "set (if p \<le> bud then AList.update s b va else va) \<subseteq> insert (s, b) (set va)"
    using set_update_subset [of s b va] by auto
  with Cons.IH [OF rest] e show ?case by auto
qed

lemma valid_allocation_loop_affordable:
  "valid_allocation_loop prices budgets zs va = Some va' \<Longrightarrow>
   \<forall>(s, b) \<in> set va. affordable prices budgets s b \<Longrightarrow>
   \<forall>(s, b) \<in> set va'. affordable prices budgets s b"
proof (induction zs arbitrary: va)
  case Nil
  then show ?case by simp
next
  case (Cons e zs)
  obtain s b where e: "e = (s, b)" by (cases e)
  from Cons.prems(1) e obtain p bud :: real where p: "bundle_price prices b = Some p"
    and bud: "map_of budgets s = Some bud"
    and rest: "valid_allocation_loop prices budgets zs
             (if p \<le> bud then AList.update s b va else va) = Some va'"
    by (auto split: option.splits)
  have "\<forall>(s, b) \<in> set (if p \<le> bud then AList.update s b va else va). affordable prices budgets s b"
  proof (cases "p \<le> bud")
    case True
    then have "affordable prices budgets s b" by (simp add: affordable_def p bud)
    with Cons.prems(2) set_update_subset [of s b va] True show ?thesis by auto
  next
    case False
    with Cons.prems(2) show ?thesis by simp
  qed
  with Cons.IH [OF rest] show ?case by blast
qed

lemma valid_allocation_loop_distinct:
  "valid_allocation_loop prices budgets zs va = Some va' \<Longrightarrow> distinct (map fst va) \<Longrightarrow>
   distinct (map fst va')"
proof (induction zs arbitrary: va)
  case Nil
  then show ?case by simp
next
  case (Cons e zs)
  obtain s b where e: "e = (s, b)" by (cases e)
  from Cons.prems(1) e obtain p bud :: real where
    rest: "valid_allocation_loop prices budgets zs
             (if p \<le> bud then AList.update s b va else va) = Some va'"
    by (auto split: option.splits)
  have "distinct (map fst (if p \<le> bud then AList.update s b va else va))"
    using Cons.prems(2) by (simp add: distinct_update)
  with Cons.IH [OF rest] show ?case by blast
qed

lemma valid_allocations_loop_elements:
  "valid_allocations_loop inst prices budgets allocs acc = Some res \<Longrightarrow> va \<in> set res \<Longrightarrow>
   va \<in> set acc \<or>
   (\<exists>alloc \<in> set allocs.
      valid_allocation_loop prices budgets (zip (agents inst) alloc) [] = Some va \<and>
      length va = length (agents inst))"
proof (induction allocs arbitrary: acc)
  case Nil
  then show ?case by simp
next
  case (Cons alloc allocs)
  from Cons.prems(1) obtain v where
    v: "valid_allocation_loop prices budgets (zip (agents inst) alloc) [] = Some v"
    and rest: "valid_allocations_loop inst prices budgets allocs
           (if length v = length (agents inst) then acc @ [v] else acc) = Some res"
    by (auto split: option.splits)
  from Cons.IH [OF rest Cons.prems(2)] v show ?case
    by (auto split: if_splits)
qed

lemma valid_allocation_keys:
  assumes run: "valid_allocation_loop prices budgets (zip ags alloc) [] = Some va"
    and len: "length va = length ags"
  shows "fst ` set va = set ags" and "distinct (map fst va)"
    and "\<forall>(s, b) \<in> set va. affordable prices budgets s b"
    and "set va \<subseteq> set (zip ags alloc)"
proof -
  show d: "distinct (map fst va)"
    using valid_allocation_loop_distinct [OF run] by simp
  show sub: "set va \<subseteq> set (zip ags alloc)"
    using valid_allocation_loop_entries [OF run] by simp
  show "\<forall>(s, b) \<in> set va. affordable prices budgets s b"
    using valid_allocation_loop_affordable [OF run] by simp
  have keys: "fst ` set va \<subseteq> set ags"
  proof
    fix s assume "s \<in> fst ` set va"
    then obtain b where "(s, b) \<in> set va" by force
    with sub have "(s, b) \<in> set (zip ags alloc)" by blast
    then show "s \<in> set ags" by (rule set_zip_leftD)
  qed
  have "card (fst ` set va) = length va"
    using d by (metis distinct_card length_map set_map)
  then have "card (set ags) \<le> card (fst ` set va)"
    using len card_length [of ags] by simp
  with keys show "fst ` set va = set ags"
    by (simp add: card_seteq)
qed

lemma instance_t_simps:
  "agents instance_t = [''Alice'', ''Bob'', ''Eve'']"
  "items instance_t = [''x'', ''y'', ''z'']"
  "agent_capacity instance_t a = 2"
  "agent_bundle_value instance_t a b = sum_list (map (val_t a) b)"
  by (simp_all add: instance_t_def)

lemma combos_t: "combinations_courses_list instance_t a =
   [[''x''], [''y''], [''z''], [''x'', ''y''], [''x'', ''z''], [''y'', ''z'']]"
  by (simp add: combinations_courses_list_def instance_t_simps upt_rec numeral_2_eq_2)

lemma ranking_t:
  "combinations_courses_sorted instance_t ''Alice'' =
     [[''x'', ''y''], [''y'', ''z''], [''x'', ''z''], [''y''], [''x''], [''z'']]"
  "combinations_courses_sorted instance_t ''Bob'' =
     [[''x'', ''y''], [''x'', ''z''], [''y'', ''z''], [''x''], [''y''], [''z'']]"
  "combinations_courses_sorted instance_t ''Eve'' =
     [[''y'', ''z''], [''x'', ''y''], [''x'', ''z''], [''y''], [''z''], [''x'']]"
  by (simp_all add: combinations_courses_sorted_def combos_t sorted_reverse_def instance_t_simps val_t_def)

lemma best_t:
  "best_loop instance_t prices_t budgets_t ''Alice'' (combinations_courses_sorted instance_t ''Alice'') (- 1) [] = Some [[''x'', ''y'']]"
  "best_loop instance_t prices_t budgets_t ''Bob'' (combinations_courses_sorted instance_t ''Bob'') (- 1) [] = Some [[''x'', ''y'']]"
  "best_loop instance_t prices_t budgets_t ''Eve'' (combinations_courses_sorted instance_t ''Eve'') (- 1) [] = Some [[''y'', ''z'']]"
  by (simp_all add: ranking_t prices_t_def budgets_t_def instance_t_simps val_t_def)

lemma student_best_bundles_t:
  "student_best_bundles prices_t instance_t budgets_t = Some [allocation_t]"
  by (simp add: student_best_bundles_def instance_t_simps best_t or_empty_bundle_def)
     (simp add: prices_t_def budgets_t_def allocation_t_def instance_t_simps)

lemma student_best_bundles_elements:
  assumes "student_best_bundles prices inst budgets = Some allocs" and "al \<in> set allocs"
  shows "\<exists>alloc. valid_allocation_loop prices budgets (zip (agents inst) alloc) [] = Some al \<and>
           length al = length (agents inst)"
  using assms valid_allocations_loop_elements [where acc = "[]" and va = al]
  unfolding student_best_bundles_def by (fastforce split: option.splits)

text \<open>
  Claim C9. Every allocation in the list returned by \<open>student_best_bundles\<close> is valid:
  its keys are exactly the agents of the instance, and the total price of every agent's
  bundle is at most the agent's initial budget.
\<close>

theorem student_best_bundles_valid:
  assumes "student_best_bundles prices inst budgets = Some allocs" and "al \<in> set allocs"
  shows "fst ` set al = set (agents inst) \<and>
         (\<forall>s \<in> set (agents inst).
            \<exists>b p budget. map_of al s = Some b \<and> bundle_price prices b = Some p \<and>
              map_of budgets s = Some budget \<and> p \<le> budget)"
proof -
  from student_best_bundles_elements [OF assms] obtain alloc where
    run: "valid_allocation_loop prices budgets (zip (agents inst) alloc) [] = Some al"
    and len: "length al = length (agents inst)" by blast
  note k = valid_allocation_keys [OF run len]
  have "\<exists>b p budget. map_of al s = Some b \<and> bundle_price prices b = Some p \<and>
              map_of budgets s = Some budget \<and> p \<le> budget" if "s \<in> set (agents inst)" for s
  proof -
    from that k(1) obtain b where sb: "(s, b) \<in> set al" by force
    with k(2) have m: "map_of al s = Some b" by simp
    from sb k(3) have "affordable prices budgets s b" by blast
    then obtain p budget where "bundle_price prices b = Some p" "map_of budgets s = Some budget"
      "p \<le> budget"
      by (auto simp: affordable_def split: option.splits)
    with m show ?thesis by blast
  qed
  with k(1) show ?thesis by blast
qed


text \<open>The first doctest of \<open>student_best_bundles\<close>, and Eve's bundle in its only allocation.\<close>

theorem student_best_bundles_valid_witness:
  "student_best_bundles prices_t instance_t budgets_t = Some [allocation_t] \<and>
   allocation_t \<in> set [allocation_t] \<and> ''Eve'' \<in> set (agents instance_t) \<and>
   fst ` set allocation_t = set (agents instance_t) \<and>
   (\<exists>b p budget. map_of allocation_t ''Eve'' = Some b \<and> bundle_price prices_t b = Some p \<and>
      map_of budgets_t ''Eve'' = Some budget \<and> p \<le> budget)"
proof -
  have m: "allocation_t \<in> set [allocation_t]" by simp
  have e: "''Eve'' \<in> set (agents instance_t)" by (simp add: instance_t_simps)
  from student_best_bundles_valid [OF student_best_bundles_t m] e student_best_bundles_t m
  show ?thesis by blast
qed

section \<open>The sequential and the thread-pool enumeration\<close>

lemma update_append_fresh:
  "k \<notin> fst ` set al \<Longrightarrow> AList.update k v al = al @ [(k, v)]"
  by (induction al) auto

lemma update_middle:
  "k \<notin> fst ` set al \<Longrightarrow> AList.update k v (al @ (k, w) # rest) = al @ (k, v) # rest"
  by (induction al) auto

lemma map_of_middle:
  "k \<notin> fst ` set al \<Longrightarrow> map_of (al @ (k, w) # rest) k = Some w"
  by (induction al) auto

lemma initial_dict:
  "distinct (map fst d @ xs) \<Longrightarrow>
   fold (\<lambda>student d. AList.update student v d) xs d = d @ map (\<lambda>s. (s, v)) xs"
proof (induction xs arbitrary: d)
  case Nil
  show ?case by simp
next
  case (Cons x xs)
  from Cons.prems have fresh: "x \<notin> fst ` set d" by auto
  from Cons.prems have "distinct (map fst (d @ [(x, v)]) @ xs)" by auto
  from Cons.IH [OF this] fresh show ?case by (simp add: update_append_fresh)
qed

lemma students_loop_futures:
  "distinct (map fst done @ todo) \<Longrightarrow>
   students_loop inst prices budgets todo (done @ map (\<lambda>s. (s, [])) todo) =
   futures_loop (map (\<lambda>s. compute_best_bundles_for_student s inst prices budgets) todo) done"
proof (induction todo arbitrary: "done")
  case Nil
  show ?case by simp
next
  case (Cons s todo)
  let ?rest = "map (\<lambda>s. (s, [])) todo"
  from Cons.prems have fresh: "s \<notin> fst ` set done" by auto
  have eq: "done @ map (\<lambda>s. (s, [])) (s # todo) = done @ (s, []) # ?rest" by simp
  have m: "map_of (done @ (s, []) # ?rest) s = Some []"
    using fresh by (rule map_of_middle)
  have u: "AList.update s v (done @ (s, []) # ?rest) = (done @ [(s, v)]) @ ?rest" for v
    using update_middle [OF fresh, of v "[]" ?rest] by simp
  have a: "AList.update s v done = done @ [(s, v)]" for v
    using fresh by (rule update_append_fresh)
  show ?case
  proof (cases "best_loop inst prices budgets s (combinations_courses_sorted inst s) (- 1) []")
    case None
    then show ?thesis
      unfolding eq by (simp add: m compute_best_bundles_for_student_def del: map_of_append)
  next
    case (Some best)
    from Cons.prems have d: "distinct (map fst (done @ [(s, or_empty_bundle best)]) @ todo)"
      by auto
    have "students_loop inst prices budgets (s # todo) (done @ (s, []) # ?rest) =
        students_loop inst prices budgets todo ((done @ [(s, or_empty_bundle best)]) @ ?rest)"
      by (simp add: m Some u del: map_of_append append_assoc)
    also have "\<dots> = futures_loop
        (map (\<lambda>s. compute_best_bundles_for_student s inst prices budgets) todo)
        (done @ [(s, or_empty_bundle best)])"
      by (rule Cons.IH [OF d])
    also have "\<dots> = futures_loop
        (map (\<lambda>s. compute_best_bundles_for_student s inst prices budgets) (s # todo)) done"
      by (simp add: compute_best_bundles_for_student_def Some a)
    finally show ?thesis unfolding eq .
  qed
qed

text \<open>
  Claim C10. For an instance (whose agents are pairwise distinct, being the keys of a
  dictionary), \<open>student_best_bundles_with_threads\<close> and \<open>student_best_bundles\<close> return
  the same list of allocations for all prices and initial budgets, and raise on the same
  inputs.
\<close>

theorem threads_equivalent:
  fixes inst :: "('a, 'i) Instance"
  assumes "distinct (agents inst)"
  shows "student_best_bundles_with_threads prices inst budgets = student_best_bundles prices inst budgets"
proof -
  have "fold (\<lambda>student d. AList.update student ([] :: 'i list list) d) (agents inst) [] =
      [] @ map (\<lambda>s. (s, [])) (agents inst)"
    using assms by (intro initial_dict) simp
  then have i: "fold (\<lambda>student d. AList.update student ([] :: 'i list list) d) (agents inst) [] =
      map (\<lambda>s. (s, [])) (agents inst)" by simp
  have "students_loop inst prices budgets (agents inst) ([] @ map (\<lambda>s. (s, [])) (agents inst)) =
      futures_loop (map (\<lambda>s. compute_best_bundles_for_student s inst prices budgets) (agents inst)) []"
    using assms by (intro students_loop_futures) simp
  then have "students_loop inst prices budgets (agents inst) (map (\<lambda>s. (s, [])) (agents inst)) =
      futures_loop (map (\<lambda>s. compute_best_bundles_for_student s inst prices budgets) (agents inst)) []"
    by simp
  then show ?thesis
    unfolding student_best_bundles_with_threads_def student_best_bundles_def i by simp
qed


text \<open>The first doctest of \<open>student_best_bundles_with_threads\<close>.\<close>

theorem threads_equivalent_witness:
  "distinct (agents instance_t) \<and>
   student_best_bundles_with_threads prices_t instance_t budgets_t = Some [allocation_t]"
proof -
  have d: "distinct (agents instance_t)" by (simp add: instance_t_simps)
  from threads_equivalent [OF d, of prices_t budgets_t] d show ?thesis
    by (simp add: student_best_bundles_t)
qed

section \<open>Agents without an affordable combination\<close>

lemma best_loop_unaffordable:
  "best_loop inst prices budgets s cs mv best = Some r \<Longrightarrow>
   \<forall>c \<in> set cs. \<not> affordable prices budgets s c \<Longrightarrow> r = best"
proof (induction cs arbitrary: mv best)
  case Nil
  then show ?case by simp
next
  case (Cons c cs)
  from Cons.prems(1) obtain p budget :: real where p: "bundle_price prices c = Some p"
    and b: "map_of budgets s = Some budget"
    by (auto split: option.splits)
  from Cons.prems(2) p b have "\<not> p \<le> budget" by (simp add: affordable_def)
  with Cons.prems(1) p b have "best_loop inst prices budgets s cs mv best = Some r" by simp
  from Cons.IH [OF this] Cons.prems(2) show ?case by simp
qed

lemma students_loop_result:
  "distinct (map fst done @ todo) \<Longrightarrow>
   students_loop inst prices budgets todo (done @ map (\<lambda>s. (s, [])) todo) = Some D \<Longrightarrow>
   D = done @ map (\<lambda>s. (s, or_empty_bundle (the (best_loop inst prices budgets s
           (combinations_courses_sorted inst s) (- 1) [])))) todo \<and>
   (\<forall>s \<in> set todo. best_loop inst prices budgets s (combinations_courses_sorted inst s) (- 1) [] \<noteq> None)"
proof (induction todo arbitrary: "done")
  case Nil
  then show ?case by simp
next
  case (Cons s todo)
  let ?rest = "map (\<lambda>s. (s, [])) todo"
  from Cons.prems(1) have fresh: "s \<notin> fst ` set done" by auto
  have m: "map_of (done @ (s, []) # ?rest) s = Some []"
    using fresh by (rule map_of_middle)
  have u: "AList.update s v (done @ (s, []) # ?rest) = (done @ [(s, v)]) @ ?rest" for v
    using update_middle [OF fresh, of v "[]" ?rest] by simp
  from Cons.prems(2) have run: "students_loop inst prices budgets (s # todo) (done @ (s, []) # ?rest) = Some D"
    by simp
  then obtain best where best: "best_loop inst prices budgets s (combinations_courses_sorted inst s) (- 1) [] = Some best"
    by (auto simp: m simp del: map_of_append split: option.splits)
  with run have rest: "students_loop inst prices budgets todo ((done @ [(s, or_empty_bundle best)]) @ ?rest) = Some D"
    by (simp add: m u del: map_of_append append_assoc)
  from Cons.prems(1) have d: "distinct (map fst (done @ [(s, or_empty_bundle best)]) @ todo)"
    by auto
  from Cons.IH [OF d rest] best show ?case by simp
qed

lemma product_lists_zip:
  assumes "alloc \<in> set (product_lists xss)" and "(s, b) \<in> set (zip ags alloc)"
    and "length ags = length xss"
  shows "\<exists>i < length ags. ags ! i = s \<and> b \<in> set (xss ! i)"
proof -
  from assms(1) have l2: "list_all2 (\<lambda>x ys. x \<in> set ys) alloc xss"
    by (simp add: product_lists_set)
  from assms(2) obtain i where i: "i < length ags" "i < length alloc" "ags ! i = s" "alloc ! i = b"
    by (auto simp: in_set_zip)
  from l2 i(2) have "alloc ! i \<in> set (xss ! i)" by (rule list_all2_nthD)
  with i show ?thesis by blast
qed

lemma student_best_bundles_from_best:
  assumes run: "student_best_bundles prices inst budgets = Some allocs"
    and d: "distinct (agents inst)" and al: "al \<in> set allocs" and s: "s \<in> set (agents inst)"
  shows "\<exists>best b. best_loop inst prices budgets s (combinations_courses_sorted inst s) (- 1) [] = Some best \<and>
           map_of al s = Some b \<and> b \<in> set (or_empty_bundle best)"
proof -
  let ?R = "\<lambda>s. or_empty_bundle (the (best_loop inst prices budgets s
           (combinations_courses_sorted inst s) (- 1) []))"
  have i: "fold (\<lambda>student d. AList.update student ([] :: 'b list list) d) (agents inst) [] =
      [] @ map (\<lambda>s. (s, [])) (agents inst)"
    using d by (intro initial_dict) simp
  from run obtain D where D: "students_loop inst prices budgets (agents inst)
        ([] @ map (\<lambda>s. (s, [])) (agents inst)) = Some D"
    and v: "valid_allocations_loop inst prices budgets (product_lists (map snd D)) [] = Some allocs"
    unfolding student_best_bundles_def i by (auto split: option.splits)
  from d have "distinct (map fst [] @ agents inst)" by simp
  from students_loop_result [OF this D]
  have Deq: "D = map (\<lambda>s. (s, ?R s)) (agents inst)"
    and def: "\<forall>s \<in> set (agents inst). best_loop inst prices budgets s (combinations_courses_sorted inst s) (- 1) [] \<noteq> None"
    by simp_all
  from valid_allocations_loop_elements [OF v al] obtain alloc where
    alloc: "alloc \<in> set (product_lists (map snd D))"
    and va: "valid_allocation_loop prices budgets (zip (agents inst) alloc) [] = Some al"
    and len: "length al = length (agents inst)" by auto
  note k = valid_allocation_keys [OF va len]
  from s k(1) obtain b where sb: "(s, b) \<in> set al" by force
  with k(2) have m: "map_of al s = Some b" by simp
  from sb k(4) have z: "(s, b) \<in> set (zip (agents inst) alloc)" by blast
  have "length (agents inst) = length (map snd D)" by (simp add: Deq)
  from product_lists_zip [OF alloc z this] obtain i where
    i: "i < length (agents inst)" "agents inst ! i = s" "b \<in> set (map snd D ! i)" by blast
  then have "b \<in> set (?R s)" by (simp add: Deq)
  moreover from def s obtain best where
    "best_loop inst prices budgets s (combinations_courses_sorted inst s) (- 1) [] = Some best"
    by auto
  ultimately show ?thesis using m by auto
qed

lemma combinations_courses_sorted_set:
  "set (combinations_courses_sorted inst s) = set (combinations_courses_list inst s)"
  by (simp add: combinations_courses_sorted_def sorted_reverse_def)

lemma combinations_courses_sorted_window_set:
  "set (combinations_courses_sorted_window inst s) = set (combinations_courses_list inst s)"
  by (simp add: combinations_courses_sorted_window_def sorted_reverse_def)

lemma fixed_mode_empty_bundle:
  assumes "student_best_bundles prices inst budgets = Some allocs"
    and "distinct (agents inst)" and "al \<in> set allocs" and "s \<in> set (agents inst)"
    and "\<forall>c \<in> set (combinations_courses_list inst s). \<not> affordable prices budgets s c"
  shows "map_of al s = Some []"
proof -
  from student_best_bundles_from_best [OF assms(1-4)] obtain best b where
    best: "best_loop inst prices budgets s (combinations_courses_sorted inst s) (- 1) [] = Some best"
    and b: "map_of al s = Some b" "b \<in> set (or_empty_bundle best)" by blast
  from assms(5) have "\<forall>c \<in> set (combinations_courses_sorted inst s). \<not> affordable prices budgets s c"
    by (simp add: combinations_courses_sorted_set)
  with best have "best = []" by (rule best_loop_unaffordable)
  with b show ?thesis by (simp add: or_empty_bundle_def)
qed

lemma window_loop_unaffordable:
  "window_loop prices lo hi cs mp recorded = Some r \<Longrightarrow>
   \<forall>c \<in> set cs. \<forall>p. bundle_price prices c = Some p \<longrightarrow> hi < p \<Longrightarrow> r = recorded"
proof (induction cs arbitrary: mp recorded)
  case Nil
  then show ?case by simp
next
  case (Cons c cs)
  from Cons.prems(1) obtain p where p: "bundle_price prices c = Some p"
    by (auto split: option.splits)
  with Cons.prems(2) have "\<not> p \<le> hi" by auto
  with Cons.prems(1) p have "window_loop prices lo hi cs mp recorded = Some r" by simp
  from Cons.IH [OF this] Cons.prems(2) show ?case by simp
qed

lemma per_budget_loop_result:
  "distinct (map fst done @ todo) \<Longrightarrow>
   per_budget_loop inst prices eps budgets todo (done @ map (\<lambda>s. (s, [])) todo) = Some D \<Longrightarrow>
   D = done @ map (\<lambda>s. (s, the (window_loop prices (the (map_of budgets s) - eps)
           (the (map_of budgets s) + eps) (combinations_courses_sorted_window inst s) None []))) todo \<and>
   (\<forall>s \<in> set todo. map_of budgets s \<noteq> None \<and>
      window_loop prices (the (map_of budgets s) - eps) (the (map_of budgets s) + eps)
        (combinations_courses_sorted_window inst s) None [] \<noteq> None)"
proof (induction todo arbitrary: "done")
  case Nil
  then show ?case by simp
next
  case (Cons s todo)
  let ?rest = "map (\<lambda>s. (s, [])) todo"
  from Cons.prems(1) have fresh: "s \<notin> fst ` set done" by auto
  have m: "map_of (done @ (s, []) # ?rest) s = Some []"
    using fresh by (rule map_of_middle)
  have u: "AList.update s v (done @ (s, []) # ?rest) = (done @ [(s, v)]) @ ?rest" for v
    using update_middle [OF fresh, of v "[]" ?rest] by simp
  from Cons.prems(2) have run:
    "per_budget_loop inst prices eps budgets (s # todo) (done @ (s, []) # ?rest) = Some D"
    by simp
  then obtain b where b: "map_of budgets s = Some b"
    by (auto split: option.splits)
  with run obtain rec where rec: "window_loop prices (b - eps) (b + eps)
      (combinations_courses_sorted_window inst s) None [] = Some rec"
    by (auto simp: m simp del: map_of_append split: option.splits)
  with run b have rest: "per_budget_loop inst prices eps budgets todo ((done @ [(s, rec)]) @ ?rest) = Some D"
    by (simp add: m u del: map_of_append append_assoc)
  from Cons.prems(1) have d: "distinct (map fst (done @ [(s, rec)]) @ todo)"
    by auto
  from Cons.IH [OF d rest] b rec show ?case by simp
qed

lemma per_budget_agent:
  assumes run: "student_best_bundle_per_budget prices inst eps budgets = Some res"
    and d: "distinct (agents inst)" and s: "s \<in> set (agents inst)"
  shows "\<exists>b recorded. map_of budgets s = Some b \<and>
           window_loop prices (b - eps) (b + eps) (combinations_courses_sorted_window inst s) None [] =
             Some recorded \<and>
           map_of res s = Some recorded"
proof -
  have i: "fold (\<lambda>student d. AList.update student ([] :: (real \<times> 'b list) list) d) (agents inst) [] =
      [] @ map (\<lambda>s. (s, [])) (agents inst)"
    using d by (intro initial_dict) simp
  from run have D: "per_budget_loop inst prices eps budgets (agents inst)
        ([] @ map (\<lambda>s. (s, [])) (agents inst)) = Some res"
    unfolding student_best_bundle_per_budget_def i .
  from d have dd: "distinct (map fst [] @ agents inst)" by simp
  let ?W = "\<lambda>s. the (window_loop prices (the (map_of budgets s) - eps)
           (the (map_of budgets s) + eps) (combinations_courses_sorted_window inst s) None [])"
  from per_budget_loop_result [OF dd D]
  have eq: "res = map (\<lambda>s. (s, ?W s)) (agents inst)"
    and def: "\<forall>s \<in> set (agents inst). map_of budgets s \<noteq> None \<and>
      window_loop prices (the (map_of budgets s) - eps) (the (map_of budgets s) + eps)
        (combinations_courses_sorted_window inst s) None [] \<noteq> None"
    by simp_all
  from def s obtain b recorded where b: "map_of budgets s = Some b"
    and r: "window_loop prices (b - eps) (b + eps) (combinations_courses_sorted_window inst s) None [] =
             Some recorded" by fastforce
  have "map_of (map (\<lambda>s. (s, ?W s)) (agents inst)) s = Some (?W s)"
    using s by (simp add: map_of_map_restrict)
  with eq b r show ?thesis by simp
qed


lemma instance_e_simps:
  "agents instance_e = [''avi'', ''beni'']"
  "items instance_e = [''x'']"
  "agent_capacity instance_e a = 1"
  "agent_bundle_value instance_e a b = sum_list (map (\<lambda>c. if a = ''avi'' then 2 else 3) b)"
  "agent_maximum_value instance_e a = (if a = ''avi'' then 2 else 3)"
  by (simp_all add: instance_e_def)

lemma combos_e: "combinations_courses_list instance_e a = [[''x'']]"
  by (simp add: combinations_courses_list_def instance_e_simps)

lemma per_budget_e:
  "student_best_bundle_per_budget prices_e instance_e (1 / 5) budgets_e =
     Some [(''avi'', []), (''beni'', [])]"
  by (simp add: student_best_bundle_per_budget_def instance_e_simps budgets_e_def prices_e_def
      combinations_courses_sorted_window_def combos_e sorted_reverse_def)

lemma best_bundles_e:
  "student_best_bundles prices_e instance_e budgets_e = Some [[(''avi'', []), (''beni'', [])]]"
  by (simp add: student_best_bundles_def instance_e_simps budgets_e_def prices_e_def
      combinations_courses_sorted_def combos_e sorted_reverse_def or_empty_bundle_def)

text \<open>
  Claim C6 as stated fails in window mode: with the only course priced 2, above beni's
  largest budget 1.2, the dictionary returned for beni is empty. It holds no budget and no
  bundle, not even the empty one.
\<close>

theorem window_mode_no_empty_bundle:
  "student_best_bundle_per_budget prices_e instance_e (1 / 5) budgets_e =
     Some [(''avi'', []), (''beni'', [])] \<and>
   combinations_courses_list instance_e ''beni'' = [[''x'']] \<and>
   bundle_price prices_e [''x''] = Some 2 \<and> map_of budgets_e ''beni'' = Some 1 \<and>
   \<not> (2 :: real) \<le> 1 + 1 / 5 \<and>
   map_of [(''avi'', []), (''beni'', [])] ''beni'' = Some ([] :: (real, string list) dict) \<and>
   [] \<notin> snd ` set ([] :: (real, string list) dict)"
  by (simp add: per_budget_e combos_e) (simp add: prices_e_def budgets_e_def)

section \<open>Window mode\<close>

lemma window_loop_total:
  "\<forall>c \<in> set cs. bundle_price prices c \<noteq> None \<Longrightarrow> window_loop prices lo hi cs mp recorded \<noteq> None"
  by (induction cs arbitrary: mp recorded) (auto split: option.splits)

lemma window_loop_refines:
  assumes "lo \<le> hi"
    and "\<forall>c \<in> set cs. bundle_price prices c = Some (price c)"
    and "\<forall>k \<in> fst ` set recorded. lo < k"
    and "case mp of None \<Rightarrow> recorded = []
         | Some m \<Rightarrow> m \<in> fst ` set recorded \<and> (\<forall>k \<in> fst ` set recorded. m \<le> k)"
  shows "window_loop prices lo hi cs mp recorded = Some (window_spec price lo hi cs recorded)"
  using assms(2-4)
proof (induction cs arbitrary: mp recorded)
  case Nil
  show ?case by simp
next
  case (Cons c cs)
  let ?p = "price c"
  from Cons.prems(1) have p: "bundle_price prices c = Some ?p"
    and rest: "\<forall>c \<in> set cs. bundle_price prices c = Some (price c)" by simp_all
  note IH = Cons.IH [OF rest]
  show ?case
  proof (cases "?p \<le> lo")
    case True
    with Cons.prems(2) have "lo \<notin> fst ` set recorded" by auto
    then have "AList.update lo c recorded = recorded @ [(lo, c)]" by (rule update_append_fresh)
    with True assms(1) p show ?thesis by simp
  next
    case low: False
    show ?thesis
    proof (cases "?p \<le> hi")
      case False
      with low p IH [OF Cons.prems(2,3)] show ?thesis by simp
    next
      case hi: True
      have cond: "(case mp of None \<Rightarrow> True | Some m \<Rightarrow> ?p < m) \<longleftrightarrow>
          (\<forall>(k, d) \<in> set recorded. ?p < k)"
      proof (cases mp)
        case None
        with Cons.prems(3) show ?thesis by simp
      next
        case (Some m)
        with Cons.prems(3) have "m \<in> fst ` set recorded" "\<forall>k \<in> fst ` set recorded. m \<le> k"
          by simp_all
        then show ?thesis using Some by fastforce
      qed
      show ?thesis
      proof (cases "\<forall>(k, d) \<in> set recorded. ?p < k")
        case False
        moreover from False cond have "\<not> (case mp of None \<Rightarrow> True | Some m \<Rightarrow> ?p < m)"
          by simp
        moreover from False have "window_spec price lo hi (c # cs) recorded =
            window_spec price lo hi cs recorded"
          using low by auto
        ultimately show ?thesis
          using low hi p IH [OF Cons.prems(2,3)] by (simp del: window_spec.simps)
      next
        case True
        then have "?p \<notin> fst ` set recorded" by auto
        then have u: "AList.update ?p c recorded = recorded @ [(?p, c)]"
          by (rule update_append_fresh)
        have i1: "\<forall>k \<in> fst ` set (recorded @ [(?p, c)]). lo < k"
          using Cons.prems(2) low by auto
        have i2: "case Some ?p of None \<Rightarrow> recorded @ [(?p, c)] = []
           | Some m \<Rightarrow> m \<in> fst ` set (recorded @ [(?p, c)]) \<and>
               (\<forall>k \<in> fst ` set (recorded @ [(?p, c)]). m \<le> k)"
          using True by fastforce
        from True cond have "(case mp of None \<Rightarrow> True | Some m \<Rightarrow> ?p < m)" by simp
        with True low hi p u IH [OF i1 i2] show ?thesis by simp
      qed
    qed
  qed
qed


lemma per_budget_loop_total:
  "\<forall>s \<in> set todo. map_of budgets s \<noteq> None \<and>
      (\<forall>c \<in> set (combinations_courses_list inst s). bundle_price prices c \<noteq> None) \<Longrightarrow>
   per_budget_loop inst prices eps budgets todo st \<noteq> None"
proof (induction todo arbitrary: st)
  case Nil
  show ?case by simp
next
  case (Cons s todo)
  from Cons.prems obtain b where b: "map_of budgets s = Some b" by auto
  from Cons.prems have "\<forall>c \<in> set (combinations_courses_sorted_window inst s). bundle_price prices c \<noteq> None"
    by (simp add: combinations_courses_sorted_window_set)
  then obtain r where "window_loop prices (b - eps) (b + eps) (combinations_courses_sorted_window inst s)
      None (case map_of st s of None \<Rightarrow> [] | Some d \<Rightarrow> d) = Some r"
    using window_loop_total by blast
  moreover from Cons.prems have "per_budget_loop inst prices eps budgets todo (AList.update s r st) \<noteq> None"
    by (intro Cons.IH) simp
  ultimately show ?case using b by simp
qed

text \<open>
  Claim C4, amended. For a radius epsilon that is not negative, pairwise distinct agents,
  a budget for every agent and a price for every item, \<open>student_best_bundle_per_budget\<close>
  returns, and the dictionary of every agent is the one \<open>window_spec\<close> describes: the
  first combination of the ranking priced at or below b - epsilon is recorded under the
  key b - epsilon and the walk stops; every other combination is recorded, under its
  price, exactly when the price is above b - epsilon, at most b + epsilon (the bound is
  inclusive) and strictly lower than every price recorded before.
\<close>

theorem window_mode_record:
  assumes "distinct (agents inst)" and "0 \<le> eps"
    and "\<forall>s \<in> set (agents inst). map_of budgets s = Some (budget s) \<and>
           (\<forall>c \<in> set (combinations_courses_list inst s). bundle_price prices c = Some (price c))"
  shows "\<exists>res. student_best_bundle_per_budget prices inst eps budgets = Some res \<and>
           (\<forall>s \<in> set (agents inst).
              map_of res s =
                Some (window_spec price (budget s - eps) (budget s + eps)
                        (combinations_courses_sorted_window inst s) []))"
proof -
  from assms(3) have "\<forall>s \<in> set (agents inst). map_of budgets s \<noteq> None \<and>
      (\<forall>c \<in> set (combinations_courses_list inst s). bundle_price prices c \<noteq> None)"
    by simp
  then have "student_best_bundle_per_budget prices inst eps budgets \<noteq> None"
    unfolding student_best_bundle_per_budget_def by (rule per_budget_loop_total)
  then obtain res where res: "student_best_bundle_per_budget prices inst eps budgets = Some res"
    by blast
  have "map_of res s = Some (window_spec price (budget s - eps) (budget s + eps)
                        (combinations_courses_sorted_window inst s) [])"
    if s: "s \<in> set (agents inst)" for s
  proof -
    from per_budget_agent [OF res assms(1) s] assms(3) s obtain recorded where
      w: "window_loop prices (budget s - eps) (budget s + eps)
            (combinations_courses_sorted_window inst s) None [] = Some recorded"
      and m: "map_of res s = Some recorded" by auto
    from assms(3) s have pr: "\<forall>c \<in> set (combinations_courses_sorted_window inst s).
        bundle_price prices c = Some (price c)"
      by (simp add: combinations_courses_sorted_window_set)
    from assms(2) have le: "budget s - eps \<le> budget s + eps" by simp
    have "window_loop prices (budget s - eps) (budget s + eps)
            (combinations_courses_sorted_window inst s) None [] =
          Some (window_spec price (budget s - eps) (budget s + eps)
            (combinations_courses_sorted_window inst s) [])"
      by (rule window_loop_refines [OF le pr]) simp_all
    with w m show ?thesis by simp
  qed
  with res show ?thesis by blast
qed

lemma ranking_window_bob: "combinations_courses_sorted_window instance_w ''Bob'' =
   [[''x'', ''y''], [''y'', ''z''], [''x'', ''z''], [''y''], [''x''], [''z'']]"
  by (simp add: combinations_courses_sorted_window_def combos_w sorted_reverse_def
      valuation_function_def instance_w_simps val_w_def)

lemma window_spec_bob:
  "window_spec price_w (4 - 2) (4 + 2) (combinations_courses_sorted_window instance_w ''Bob'') [] =
     [(7 / 2, [''x'', ''y'']), (2, [''y'', ''z''])]"
  by (simp add: ranking_window_bob price_w_def)

text \<open>Bob in the second doctest of \<open>student_best_bundle_per_budget\<close>.\<close>

theorem window_mode_record_witness:
  "distinct (agents instance_w) \<and> (0 :: real) \<le> 2 \<and>
   map_of budgets_w ''Bob'' = Some 4 \<and> bundle_price prices_w [''y'', ''z''] = Some (price_w [''y'', ''z'']) \<and>
   (\<exists>res. student_best_bundle_per_budget prices_w instance_w 2 budgets_w = Some res \<and>
      map_of res ''Bob'' = Some [(7 / 2, [''x'', ''y'']), (2, [''y'', ''z''])])"
proof -
  have d: "distinct (agents instance_w)" by (simp add: instance_w_simps)
  have e: "(0 :: real) \<le> 2" by simp
  have h: "\<forall>s \<in> set (agents instance_w).
      map_of budgets_w s = Some (if s = ''Alice'' then 5 else 4) \<and>
      (\<forall>c \<in> set (combinations_courses_list instance_w s). bundle_price prices_w c = Some (price_w c))"
    by (simp add: instance_w_simps combos_w budgets_w_def prices_w_def price_w_def)
  from window_mode_record [OF d e h] obtain res where
    r: "student_best_bundle_per_budget prices_w instance_w 2 budgets_w = Some res"
    and a: "\<forall>s \<in> set (agents instance_w).
              map_of res s =
                Some (window_spec price_w ((if s = ''Alice'' then 5 else 4) - 2)
                        ((if s = ''Alice'' then 5 else 4) + 2)
                        (combinations_courses_sorted_window instance_w s) [])"
    by blast
  from a have "map_of res ''Bob'' = Some [(7 / 2, [''x'', ''y'']), (2, [''y'', ''z''])]"
    using window_spec_bob by (simp add: instance_w_simps)
  with r d show ?thesis
    by (auto simp: budgets_w_def prices_w_def price_w_def)
qed

text \<open>
  Claim C4 as stated fails at the upper end of the window: with budget 1 and epsilon 1 the
  course priced 2 = b + epsilon is recorded for beni under its price, though 2 is not
  strictly below b + epsilon.
\<close>

theorem window_upper_bound_counterexample:
  "student_best_bundle_per_budget prices_e instance_e 1 budgets_e =
     Some [(''avi'', [(2, [''x''])]), (''beni'', [(2, [''x''])])] \<and>
   bundle_price prices_e [''x''] = Some 2 \<and> map_of budgets_e ''beni'' = Some 1 \<and>
   (2 :: real) \<noteq> 1 - 1 \<and> \<not> (2 :: real) < 1 + 1"
  by (simp add: student_best_bundle_per_budget_def instance_e_simps budgets_e_def prices_e_def
      combinations_courses_sorted_window_def combos_e sorted_reverse_def)

section \<open>The result for an agent without an affordable combination\<close>

lemma best_loop_total:
  "map_of budgets s \<noteq> None \<Longrightarrow> \<forall>c \<in> set cs. bundle_price prices c \<noteq> None \<Longrightarrow>
   best_loop inst prices budgets s cs mv best \<noteq> None"
proof (induction cs arbitrary: mv best)
  case Nil
  show ?case by simp
next
  case (Cons c cs)
  from Cons.prems obtain p budget :: real where p: "bundle_price prices c = Some p"
    and b: "map_of budgets s = Some budget" by auto
  have "best_loop inst prices budgets s cs mv' best' \<noteq> None" for mv' best'
    using Cons.prems by (intro Cons.IH) simp_all
  then have rest: "\<exists>y. best_loop inst prices budgets s cs mv' best' = Some y" for mv' best'
    by simp
  show ?case
    by (simp add: p b Let_def rest)
qed

lemma best_loop_affordable:
  "best_loop inst prices budgets s cs mv best = Some r \<Longrightarrow>
   \<forall>b \<in> set best. affordable prices budgets s b \<Longrightarrow>
   \<forall>b \<in> set r. affordable prices budgets s b"
proof (induction cs arbitrary: mv best)
  case Nil
  then show ?case by simp
next
  case (Cons c cs)
  from Cons.prems(1) obtain p budget :: real where p: "bundle_price prices c = Some p"
    and b: "map_of budgets s = Some budget"
    by (auto split: option.splits)
  let ?v = "agent_bundle_value inst s c"
  show ?case
  proof (cases "p \<le> budget \<and> ?v \<ge> mv")
    case True
    then have aff: "affordable prices budgets s c" by (simp add: affordable_def p b)
    let ?best = "(if ?v > mv then [] else best) @ [c]"
    from True Cons.prems(1) p b have run: "best_loop inst prices budgets s cs ?v ?best = Some r"
      by (simp add: Let_def)
    have "\<forall>b \<in> set ?best. affordable prices budgets s b"
      using Cons.prems(2) aff by auto
    from Cons.IH [OF run this] show ?thesis .
  next
    case False
    with Cons.prems(1) p b have run: "best_loop inst prices budgets s cs mv best = Some r"
      by (auto simp: Let_def split: if_splits)
    from Cons.IH [OF run Cons.prems(2)] show ?thesis .
  qed
qed

lemma futures_loop_total:
  "\<forall>f \<in> set fs. f \<noteq> None \<Longrightarrow> futures_loop fs d \<noteq> None"
proof (induction fs arbitrary: d)
  case Nil
  show ?case by simp
next
  case (Cons f fs)
  from Cons.prems obtain student best where f: "f = Some (student, best)" by auto
  from Cons.prems have "futures_loop fs (AList.update student best d) \<noteq> None"
    by (intro Cons.IH) simp
  with f show ?case by simp
qed

lemma product_lists_nonempty:
  "\<forall>xs \<in> set xss. xs \<noteq> [] \<Longrightarrow> product_lists xss \<noteq> []"
proof (induction xss)
  case Nil
  show ?case by simp
next
  case (Cons xs xss)
  then obtain x xs' where "xs = x # xs'" by (cases xs) auto
  moreover from Cons have "product_lists xss \<noteq> []" by simp
  ultimately show ?case by simp
qed

lemma valid_allocation_loop_all:
  "distinct (map fst va @ map fst zs) \<Longrightarrow>
   \<forall>(s, b) \<in> set zs. affordable prices budgets s b \<Longrightarrow>
   valid_allocation_loop prices budgets zs va = Some (va @ zs)"
proof (induction zs arbitrary: va)
  case Nil
  show ?case by simp
next
  case (Cons e zs)
  obtain s b where e: "e = (s, b)" by (cases e)
  from Cons.prems(2) e have "affordable prices budgets s b" by simp
  then obtain p budget where p: "bundle_price prices b = Some p"
    and bud: "map_of budgets s = Some budget" and le: "p \<le> budget"
    by (auto simp: affordable_def split: option.splits)
  from Cons.prems(1) e have fresh: "s \<notin> fst ` set va" by auto
  then have u: "AList.update s b va = va @ [(s, b)]" by (rule update_append_fresh)
  from Cons.prems(1) e have d: "distinct (map fst (va @ [(s, b)]) @ map fst zs)" by auto
  from Cons.prems(2) have "\<forall>(s, b) \<in> set zs. affordable prices budgets s b" by simp
  from Cons.IH [OF d this] show ?case
    by (simp add: e p bud le u)
qed

lemma valid_allocations_loop_all:
  "distinct (agents inst) \<Longrightarrow>
   \<forall>alloc \<in> set allocs. length alloc = length (agents inst) \<and>
      (\<forall>(s, b) \<in> set (zip (agents inst) alloc). affordable prices budgets s b) \<Longrightarrow>
   valid_allocations_loop inst prices budgets allocs acc =
     Some (acc @ map (zip (agents inst)) allocs)"
proof (induction allocs arbitrary: acc)
  case Nil
  show ?case by simp
next
  case (Cons alloc allocs)
  from Cons.prems(2) have len: "length alloc = length (agents inst)"
    and aff: "\<forall>(s, b) \<in> set (zip (agents inst) alloc). affordable prices budgets s b"
    by simp_all
  from len have "map fst (zip (agents inst) alloc) = agents inst" by simp
  with Cons.prems(1) have "distinct (map fst [] @ map fst (zip (agents inst) alloc))" by simp
  from valid_allocation_loop_all [OF this aff]
  have v: "valid_allocation_loop prices budgets (zip (agents inst) alloc) [] =
      Some (zip (agents inst) alloc)" by simp
  from Cons.prems(2) have "\<forall>alloc \<in> set allocs. length alloc = length (agents inst) \<and>
      (\<forall>(s, b) \<in> set (zip (agents inst) alloc). affordable prices budgets s b)" by simp
  from Cons.IH [OF Cons.prems(1) this] show ?case
    by (simp add: v len)
qed


lemma fixed_mode_returns:
  assumes d: "distinct (agents inst)"
    and h: "\<forall>a \<in> set (agents inst). (\<exists>b. map_of budgets a = Some b \<and> 0 \<le> b) \<and>
          (\<forall>c \<in> set (combinations_courses_list inst a). bundle_price prices c \<noteq> None)"
  shows "\<exists>allocs. student_best_bundles prices inst budgets = Some allocs \<and> allocs \<noteq> []"
proof -
  let ?B = "\<lambda>s. best_loop inst prices budgets s (combinations_courses_sorted inst s) (- 1) []"
  let ?R = "\<lambda>s. or_empty_bundle (the (?B s))"
  have total: "?B a \<noteq> None" if "a \<in> set (agents inst)" for a
  proof (rule best_loop_total)
    from h that show "map_of budgets a \<noteq> None" by auto
    from h that show "\<forall>c \<in> set (combinations_courses_sorted inst a). bundle_price prices c \<noteq> None"
      by (simp add: combinations_courses_sorted_set)
  qed
  have i: "fold (\<lambda>student d. AList.update student ([] :: 'b list list) d) (agents inst) [] =
      [] @ map (\<lambda>s. (s, [])) (agents inst)"
    using d by (intro initial_dict) simp
  from d have dd: "distinct (map fst [] @ agents inst)" by simp
  have "\<forall>f \<in> set (map (\<lambda>s. compute_best_bundles_for_student s inst prices budgets) (agents inst)).
      f \<noteq> None"
    using total by (auto simp: compute_best_bundles_for_student_def split: option.splits)
  then have "futures_loop
      (map (\<lambda>s. compute_best_bundles_for_student s inst prices budgets) (agents inst)) [] \<noteq> None"
    by (rule futures_loop_total)
  with students_loop_futures [OF dd, of inst prices budgets] obtain D where
    D: "students_loop inst prices budgets (agents inst) ([] @ map (\<lambda>s. (s, [])) (agents inst)) = Some D"
    by auto
  from students_loop_result [OF dd D] have Deq: "D = map (\<lambda>s. (s, ?R s)) (agents inst)" by simp
  let ?allocs = "product_lists (map snd D)"
  have snd_D: "map snd D = map ?R (agents inst)" by (simp add: Deq comp_def)
  have good: "\<forall>alloc \<in> set ?allocs. length alloc = length (agents inst) \<and>
      (\<forall>(s, b) \<in> set (zip (agents inst) alloc). affordable prices budgets s b)"
  proof (rule ballI, rule conjI)
    fix alloc assume alloc: "alloc \<in> set ?allocs"
    then show len: "length alloc = length (agents inst)"
      using in_set_product_lists_length [of alloc "map snd D"] by (simp add: snd_D)
    show "\<forall>(s, b) \<in> set (zip (agents inst) alloc). affordable prices budgets s b"
    proof (clarify)
      fix s b assume z: "(s, b) \<in> set (zip (agents inst) alloc)"
      then have s: "s \<in> set (agents inst)" by (rule set_zip_leftD)
      have "length (agents inst) = length (map snd D)" by (simp add: snd_D)
      from product_lists_zip [OF alloc z this] obtain i where
        "i < length (agents inst)" "agents inst ! i = s" "b \<in> set (map snd D ! i)" by blast
      then have bR: "b \<in> set (?R s)" by (simp add: snd_D)
      from total [OF s] obtain best where best: "?B s = Some best" by auto
      from h s obtain budget where bud: "map_of budgets s = Some budget" "0 \<le> budget" by auto
      show "affordable prices budgets s b"
      proof (cases "best = []")
        case True
        with bR best have "b = []" by (simp add: or_empty_bundle_def)
        with bud show ?thesis by (simp add: affordable_def)
      next
        case False
        with bR best have "b \<in> set best" by (simp add: or_empty_bundle_def)
        moreover have "\<forall>b \<in> set best. affordable prices budgets s b"
          using best by (rule best_loop_affordable) simp
        ultimately show ?thesis by blast
      qed
    qed
  qed
  have "valid_allocations_loop inst prices budgets ?allocs [] =
      Some ([] @ map (zip (agents inst)) ?allocs)"
    using d good by (rule valid_allocations_loop_all)
  then have res: "student_best_bundles prices inst budgets = Some (map (zip (agents inst)) ?allocs)"
    unfolding student_best_bundles_def i using D by simp
  have "\<forall>xs \<in> set (map snd D). xs \<noteq> []"
    by (auto simp: snd_D or_empty_bundle_def)
  then have "?allocs \<noteq> []" by (rule product_lists_nonempty)
  with res show ?thesis by simp
qed

lemma window_mode_returns:
  assumes "\<forall>a \<in> set (agents inst). map_of budgets a \<noteq> None \<and>
          (\<forall>c \<in> set (combinations_courses_list inst a). bundle_price prices c \<noteq> None)"
  shows "\<exists>res. student_best_bundle_per_budget prices inst eps budgets = Some res"
proof -
  from assms have "student_best_bundle_per_budget prices inst eps budgets \<noteq> None"
    unfolding student_best_bundle_per_budget_def by (rule per_budget_loop_total)
  then show ?thesis by blast
qed

text \<open>
  Claim C6, amended. An agent without an affordable combination is not an error in
  either mode. In fixed-budget mode, when every combination has a price and every agent a
  budget that is not negative, \<open>student_best_bundles\<close> returns a list of allocations that
  is not empty, and the agent's bundle is the empty bundle in every allocation of the
  list (also of any list the function returns under other budgets). In window mode, when
  every combination has a price and every agent a budget,
  \<open>student_best_bundle_per_budget\<close> returns, and the entry of an agent with no
  combination priced at or below the budget plus epsilon is the empty dictionary: no
  bundle is recorded.
\<close>

theorem unaffordable_agent:
  assumes "distinct (agents inst)" and "s \<in> set (agents inst)"
  shows "((\<forall>a \<in> set (agents inst). (\<exists>b. map_of budgets a = Some b \<and> 0 \<le> b) \<and>
            (\<forall>c \<in> set (combinations_courses_list inst a). bundle_price prices c \<noteq> None)) \<longrightarrow>
          (\<exists>allocs. student_best_bundles prices inst budgets = Some allocs \<and> allocs \<noteq> [] \<and>
             ((\<forall>c \<in> set (combinations_courses_list inst s). \<not> affordable prices budgets s c) \<longrightarrow>
              (\<forall>al \<in> set allocs. map_of al s = Some [])))) \<and>
         (\<forall>allocs al.
            student_best_bundles prices inst budgets = Some allocs \<and> al \<in> set allocs \<and>
            (\<forall>c \<in> set (combinations_courses_list inst s). \<not> affordable prices budgets s c) \<longrightarrow>
            map_of al s = Some []) \<and>
         ((\<forall>a \<in> set (agents inst). map_of budgets a \<noteq> None \<and>
            (\<forall>c \<in> set (combinations_courses_list inst a). bundle_price prices c \<noteq> None)) \<longrightarrow>
          (\<exists>res. student_best_bundle_per_budget prices inst eps budgets = Some res \<and>
             (\<forall>b. map_of budgets s = Some b \<and>
                (\<forall>c \<in> set (combinations_courses_list inst s).
                   \<forall>p. bundle_price prices c = Some p \<longrightarrow> b + eps < p) \<longrightarrow>
                map_of res s = Some []))) \<and>
         (\<forall>res b.
            student_best_bundle_per_budget prices inst eps budgets = Some res \<and>
            map_of budgets s = Some b \<and>
            (\<forall>c \<in> set (combinations_courses_list inst s).
               \<forall>p. bundle_price prices c = Some p \<longrightarrow> b + eps < p) \<longrightarrow>
            map_of res s = Some [])"
proof -
  have fixed: "map_of al s = Some []"
    if "student_best_bundles prices inst budgets = Some allocs" "al \<in> set allocs"
      "\<forall>c \<in> set (combinations_courses_list inst s). \<not> affordable prices budgets s c"
    for allocs al
    using fixed_mode_empty_bundle [OF that(1) assms(1) that(2) assms(2) that(3)] .
  have window: "map_of res s = Some []"
    if run: "student_best_bundle_per_budget prices inst eps budgets = Some res"
      and b: "map_of budgets s = Some b"
      and un: "\<forall>c \<in> set (combinations_courses_list inst s).
               \<forall>p. bundle_price prices c = Some p \<longrightarrow> b + eps < p"
    for res b
  proof -
    from un have un': "\<forall>c \<in> set (combinations_courses_sorted_window inst s).
               \<forall>p. bundle_price prices c = Some p \<longrightarrow> b + eps < p"
      by (simp add: combinations_courses_sorted_window_set)
    from per_budget_agent [OF run assms] b obtain recorded where
      w: "window_loop prices (b - eps) (b + eps) (combinations_courses_sorted_window inst s) None [] =
             Some recorded"
      and m: "map_of res s = Some recorded" by auto
    from w un' have "recorded = []" by (rule window_loop_unaffordable)
    with m show ?thesis by simp
  qed
  show ?thesis
  proof (intro conjI impI allI)
    assume h: "\<forall>a \<in> set (agents inst). (\<exists>b. map_of budgets a = Some b \<and> 0 \<le> b) \<and>
            (\<forall>c \<in> set (combinations_courses_list inst a). bundle_price prices c \<noteq> None)"
    from fixed_mode_returns [OF assms(1) h] obtain allocs where
      r: "student_best_bundles prices inst budgets = Some allocs" and n: "allocs \<noteq> []" by blast
    with fixed show "\<exists>allocs. student_best_bundles prices inst budgets = Some allocs \<and> allocs \<noteq> [] \<and>
             ((\<forall>c \<in> set (combinations_courses_list inst s). \<not> affordable prices budgets s c) \<longrightarrow>
              (\<forall>al \<in> set allocs. map_of al s = Some []))"
      by blast
  next
    fix allocs al
    assume "student_best_bundles prices inst budgets = Some allocs \<and> al \<in> set allocs \<and>
            (\<forall>c \<in> set (combinations_courses_list inst s). \<not> affordable prices budgets s c)"
    with fixed show "map_of al s = Some []" by blast
  next
    assume h: "\<forall>a \<in> set (agents inst). map_of budgets a \<noteq> None \<and>
            (\<forall>c \<in> set (combinations_courses_list inst a). bundle_price prices c \<noteq> None)"
    from window_mode_returns [OF h] obtain res where
      r: "student_best_bundle_per_budget prices inst eps budgets = Some res" by blast
    with window show "\<exists>res. student_best_bundle_per_budget prices inst eps budgets = Some res \<and>
             (\<forall>b. map_of budgets s = Some b \<and>
                (\<forall>c \<in> set (combinations_courses_list inst s).
                   \<forall>p. bundle_price prices c = Some p \<longrightarrow> b + eps < p) \<longrightarrow>
                map_of res s = Some [])"
      by blast
  next
    fix res b
    assume "student_best_bundle_per_budget prices inst eps budgets = Some res \<and>
            map_of budgets s = Some b \<and>
            (\<forall>c \<in> set (combinations_courses_list inst s).
               \<forall>p. bundle_price prices c = Some p \<longrightarrow> b + eps < p)"
    with window show "map_of res s = Some []" by blast
  qed
qed

text \<open>The agent beni of the example, in both modes.\<close>

theorem unaffordable_agent_witness:
  "distinct (agents instance_e) \<and> ''beni'' \<in> set (agents instance_e) \<and>
   map_of budgets_e ''avi'' = Some (11 / 10) \<and> map_of budgets_e ''beni'' = Some 1 \<and>
   bundle_price prices_e [''x''] = Some 2 \<and>
   \<not> affordable prices_e budgets_e ''beni'' [''x''] \<and>
   student_best_bundles prices_e instance_e budgets_e = Some [[(''avi'', []), (''beni'', [])]] \<and>
   [[(''avi'', []), (''beni'', [])]] \<noteq> ([] :: (string, string list) dict list) \<and>
   map_of [(''avi'', []), (''beni'', [])] ''beni'' = Some ([] :: string list) \<and>
   student_best_bundle_per_budget prices_e instance_e (1 / 5) budgets_e =
     Some [(''avi'', []), (''beni'', [])] \<and>
   map_of [(''avi'', []), (''beni'', [])] ''beni'' = Some ([] :: (real, string list) dict)"
proof -
  have d: "distinct (agents instance_e)" and s: "''beni'' \<in> set (agents instance_e)"
    by (simp_all add: instance_e_simps)
  have un: "\<not> affordable prices_e budgets_e ''beni'' [''x'']"
    by (simp add: affordable_def prices_e_def budgets_e_def)
  have "map_of budgets_e a = Some (if a = ''avi'' then 11 / 10 else 1) \<and>
      (0 :: real) \<le> (if a = ''avi'' then 11 / 10 else 1)"
    if "a \<in> set (agents instance_e)" for a
    using that by (auto simp: instance_e_simps budgets_e_def)
  then have "\<exists>b. map_of budgets_e a = Some b \<and> 0 \<le> b" if "a \<in> set (agents instance_e)" for a
    using that by blast
  moreover have "\<forall>c \<in> set (combinations_courses_list instance_e a). bundle_price prices_e c \<noteq> None"
    for a by (simp add: combos_e prices_e_def)
  ultimately have h: "\<forall>a \<in> set (agents instance_e). (\<exists>b. map_of budgets_e a = Some b \<and> 0 \<le> b) \<and>
      (\<forall>c \<in> set (combinations_courses_list instance_e a). bundle_price prices_e c \<noteq> None)"
    by blast
  have p: "bundle_price prices_e [''x''] = Some 2" by (simp add: prices_e_def)
  have b: "map_of budgets_e ''avi'' = Some (11 / 10)" "map_of budgets_e ''beni'' = Some 1"
    by (simp_all add: budgets_e_def)
  from unaffordable_agent [OF d s, of budgets_e prices_e "1 / 5"] h un d s p b show ?thesis
    by (simp add: best_bundles_e per_budget_e combos_e)
qed

section \<open>Equivalent prices\<close>

lemma instance_p_simps:
  "agents instance_p = [''A'']"
  "items instance_p = [''x'', ''y'']"
  "agent_capacity instance_p a = 1"
  "agent_bundle_value instance_p a b = sum_list (map (\<lambda>c. if c = ''x'' then 5 else 3) b)"
  by (simp_all add: instance_p_def)

lemma combos_p: "combinations_courses_list instance_p a = [[''x''], [''y'']]"
  by (simp add: combinations_courses_list_def instance_p_simps)

lemma best_bundles_p: "student_best_bundles prices_p instance_p budgets_p = Some [allocation_p]"
  by (simp add: student_best_bundles_def instance_p_simps budgets_p_def prices_p_def
      combinations_courses_sorted_def combos_p sorted_reverse_def or_empty_bundle_def
      allocation_p_def)

lemma equivalent_prices_p:
  "find_all_equivalent_prices instance_p budgets_p allocation_p =
     Some [budget_le budgets_p ''A'' [''y''], budget_gt budgets_p ''A'' [''y'']]"
  by (simp add: find_all_equivalent_prices_def instance_p_simps allocation_p_def combos_p)

text \<open>
  Claim C1 (idempotence of \<open>find_all_equivalent_prices\<close>) does not hold of the code. At
  the prices x: 2, y: 1 and the budget 1 the only allocation of \<open>student_best_bundles\<close>
  gives y to the agent: y is affordable and of maximal value among the affordable bundles.
  For the alternative x, of higher value, the function appends a constraint on the keys
  \<open>allocation[student]\<close>, the agent's own bundle, not on the alternative: the list is
  "price of y at most 1" and "price of y above 1", and the same prices fed back make the
  second constraint false.
\<close>

theorem equivalent_prices_not_idempotent:
  "student_best_bundles prices_p instance_p budgets_p = Some [allocation_p] \<and>
   find_all_equivalent_prices instance_p budgets_p allocation_p =
     Some [budget_le budgets_p ''A'' [''y''], budget_gt budgets_p ''A'' [''y'']] \<and>
   budget_le budgets_p ''A'' [''y''] prices_p = Some True \<and>
   budget_gt budgets_p ''A'' [''y''] prices_p = Some False \<and>
   all_hold [budget_le budgets_p ''A'' [''y''], budget_gt budgets_p ''A'' [''y'']] prices_p = Some False"
  by (simp add: best_bundles_p equivalent_prices_p)
     (simp add: budget_le_def budget_gt_def prices_p_def budgets_p_def)

section \<open>Prices of the neighbors and of the ACEEI update\<close>

lemma sqrt_half_pos: "0 < sqrt_half"
  by (simp add: sqrt_half_def)

lemma update_nonneg:
  "\<forall>(c, v) \<in> set al. (0 :: real) \<le> v \<Longrightarrow> 0 \<le> w \<Longrightarrow> \<forall>(c, v) \<in> set (AList.update k w al). 0 \<le> v"
  using set_update_subset [of k w al] by auto

lemma gradient_prices_loop_nonneg:
  "\<forall>(c, v) \<in> set up. 0 \<le> v \<Longrightarrow> \<forall>(c, v) \<in> set (gradient_prices_loop d z ps up). 0 \<le> v"
proof (induction ps arbitrary: up)
  case Nil
  then show ?case by simp
next
  case (Cons e ps)
  obtain c p where e: "e = (c, p)" by (cases e)
  let ?w = "max 0 (p + d * (case map_of z c of None \<Rightarrow> 0 | Some e \<Rightarrow> real_of_int e))"
  have "\<forall>(c, v) \<in> set (AList.update c ?w up). 0 \<le> v"
    using Cons.prems by (rule update_nonneg) simp
  from Cons.IH [OF this] e show ?case by simp
qed

lemma gradient_prices_loop_keys:
  "fst ` set (gradient_prices_loop d z ps up) = fst ` set up \<union> fst ` set ps"
proof (induction ps arbitrary: up)
  case Nil
  show ?case by simp
next
  case (Cons e ps)
  obtain c p where e: "e = (c, p)" by (cases e)
  show ?case unfolding e by (simp add: Cons.IH dom_update)
qed

lemma gradient_loop_nonneg:
  "gradient_loop prices delta z history up nn = Some res \<Longrightarrow>
   \<forall>(c, v) \<in> set up. 0 \<le> v \<Longrightarrow> fst ` set up \<subseteq> fst ` set prices \<Longrightarrow>
   \<forall>n \<in> set nn. fst ` set n = fst ` set prices \<and> (\<forall>(c, v) \<in> set n. 0 \<le> v) \<Longrightarrow>
   \<forall>n \<in> set res. fst ` set n = fst ` set prices \<and> (\<forall>(c, v) \<in> set n. 0 \<le> v)"
proof (induction delta arbitrary: up nn)
  case Nil
  then show ?case by simp
next
  case (Cons d delta)
  let ?u = "gradient_prices_loop d z prices up"
  from Cons.prems(1) obtain tabu where
    rest: "gradient_loop prices delta z history ?u (if \<not> tabu then nn @ [?u] else nn) = Some res"
    by (auto simp: Let_def split: option.splits)
  have n: "\<forall>(c, v) \<in> set ?u. 0 \<le> v"
    using Cons.prems(2) by (rule gradient_prices_loop_nonneg)
  have k: "fst ` set ?u = fst ` set prices"
    using Cons.prems(3) by (auto simp: gradient_prices_loop_keys)
  have "\<forall>n \<in> set (if \<not> tabu then nn @ [?u] else nn).
      fst ` set n = fst ` set prices \<and> (\<forall>(c, v) \<in> set n. 0 \<le> v)"
    using Cons.prems(4) n k by auto
  from Cons.IH [OF rest n _ this] k show ?case by simp
qed

lemma steps_loop_nonneg:
  "steps_loop inst history budgets allocation use_threads course n up nn = Some res \<Longrightarrow>
   \<forall>(c, v) \<in> set up. 0 \<le> v \<Longrightarrow>
   \<forall>m \<in> set nn. \<forall>(c, v) \<in> set m. 0 \<le> v \<Longrightarrow>
   \<forall>m \<in> set res. \<forall>(c, v) \<in> set m. 0 \<le> v"
proof (induction n arbitrary: up nn)
  case 0
  then show ?case by simp
next
  case (Suc n)
  from Suc.prems(1) obtain price where price: "map_of up course = Some price"
    by (auto split: option.splits)
  let ?u = "AList.update course (price + sqrt_half) up"
  from price have "(course, price) \<in> set up" by (rule map_of_SomeD)
  with Suc.prems(2) have "0 \<le> price" by auto
  then have "0 \<le> price + sqrt_half" using sqrt_half_pos by simp
  with Suc.prems(2) have u: "\<forall>(c, v) \<in> set ?u. 0 \<le> v" by (rule update_nonneg)
  from Suc.prems(1) price obtain k where
    rest: "steps_loop inst history budgets allocation use_threads course n ?u (nn @ replicate k ?u) = Some res"
  proof (cases "is_tabu history ?u")
    case None
    with Suc.prems(1) price show ?thesis by (simp add: Let_def)
  next
    case (Some t)
    show ?thesis
    proof (cases t)
      case True
      with Some Suc.prems(1) price have
        "steps_loop inst history budgets allocation use_threads course n ?u (nn @ replicate 0 ?u) = Some res"
        by (simp add: Let_def)
      then show ?thesis by (rule that)
    next
      case False
      with Some Suc.prems(1) price obtain nas where
        "steps_loop inst history budgets allocation use_threads course n ?u
           (nn @ map (\<lambda>new_allocation. ?u)
              (filter (\<lambda>new_allocation. differ_in_one_value allocation new_allocation course) nas)) = Some res"
        by (auto simp: Let_def split: option.splits)
      then have "steps_loop inst history budgets allocation use_threads course n ?u
           (nn @ replicate (length (filter (\<lambda>new_allocation.
              differ_in_one_value allocation new_allocation course) nas)) ?u) = Some res"
        by (simp add: map_replicate_const)
      then show ?thesis by (rule that)
    qed
  qed
  have "\<forall>m \<in> set (nn @ replicate k ?u). \<forall>(c, v) \<in> set m. 0 \<le> v"
    using Suc.prems(3) u by auto
  from Suc.IH [OF rest u this] show ?case .
qed

lemma adjustment_loop_nonneg:
  "adjustment_loop inst history prices budgets allocation use_threads zs nn = Some res \<Longrightarrow>
   \<forall>(c, v) \<in> set prices. 0 \<le> v \<Longrightarrow>
   \<forall>m \<in> set nn. \<forall>(c, v) \<in> set m. 0 \<le> v \<Longrightarrow>
   \<forall>m \<in> set res. \<forall>(c, v) \<in> set m. 0 \<le> v"
proof (induction zs arbitrary: nn)
  case Nil
  then show ?case by simp
next
  case (Cons e zs)
  obtain course excess where e: "e = (course, excess)" by (cases e)
  show ?case
  proof (cases "length nn \<ge> 35")
    case True
    with Cons.prems e show ?thesis by simp
  next
    case short: False
    consider (zero) "excess = 0" | (pos) "excess > 0" | (neg) "excess < 0" by linarith
    then show ?thesis
    proof cases
      case zero
      with short Cons.prems(1) e have
        "adjustment_loop inst history prices budgets allocation use_threads zs nn = Some res"
        by simp
      from Cons.IH [OF this Cons.prems(2,3)] show ?thesis .
    next
      case pos
      with short Cons.prems(1) e obtain nn' where
        st: "steps_loop inst history budgets allocation use_threads course 10 prices nn = Some nn'"
        and rest: "adjustment_loop inst history prices budgets allocation use_threads zs nn' = Some res"
        by (auto split: option.splits)
      from steps_loop_nonneg [OF st Cons.prems(2,3)]
      have "\<forall>m \<in> set nn'. \<forall>(c, v) \<in> set m. 0 \<le> v" .
      from Cons.IH [OF rest Cons.prems(2) this] show ?thesis .
    next
      case neg
      let ?u = "AList.update course 0 prices"
      from neg short Cons.prems(1) e obtain tabu where
        rest: "adjustment_loop inst history prices budgets allocation use_threads zs
            (if \<not> tabu then nn @ [?u] else nn) = Some res"
        by (auto simp: Let_def split: option.splits)
      have "\<forall>(c, v) \<in> set ?u. 0 \<le> v"
        using Cons.prems(2) by (rule update_nonneg) simp
      with Cons.prems(3) have "\<forall>m \<in> set (if \<not> tabu then nn @ [?u] else nn). \<forall>(c, v) \<in> set m. 0 \<le> v"
        by auto
      from Cons.IH [OF rest Cons.prems(2) this] show ?thesis .
    qed
  qed
qed


lemma price_update_loop_keys:
  "price_update_loop ks d ed p = Some p' \<Longrightarrow> map fst p' = map fst p"
proof (induction ks arbitrary: p)
  case Nil
  then show ?case by simp
next
  case (Cons key ks)
  from Cons.prems obtain v e where v: "map_of p key = Some v"
    and rest: "price_update_loop ks d ed (AList.update key (v + d * e) p) = Some p'"
    by (auto split: option.splits)
  from v have "(key, v) \<in> set p" by (rule map_of_SomeD)
  then have "key \<in> fst ` set p" by force
  then have "key \<in> set (map fst p)" by simp
  then have "map fst (AList.update key (v + d * e) p) = map fst p"
    by (simp only: update_keys if_True)
  with Cons.IH [OF rest] show ?case by simp
qed

lemma price_update_loop_lookup:
  "price_update_loop ks d ed p = Some p' \<Longrightarrow> distinct ks \<Longrightarrow>
   (k \<notin> set ks \<longrightarrow> map_of p' k = map_of p k) \<and>
   (k \<in> set ks \<longrightarrow>
      (\<exists>v e. map_of p k = Some v \<and> map_of ed k = Some e \<and> map_of p' k = Some (v + d * e)))"
proof (induction ks arbitrary: p)
  case Nil
  then show ?case by simp
next
  case (Cons key ks)
  from Cons.prems(1) obtain v e where v: "map_of p key = Some v" and e: "map_of ed key = Some e"
    and rest: "price_update_loop ks d ed (AList.update key (v + d * e) p) = Some p'"
    by (auto split: option.splits)
  from Cons.prems(2) have d: "distinct ks" and fresh: "key \<notin> set ks" by simp_all
  note IH = Cons.IH [OF rest d]
  show ?case
  proof (cases "k = key")
    case True
    with IH fresh have "map_of p' k = map_of (AList.update key (v + d * e) p) k" by simp
    with True v e show ?thesis by (simp add: update_conv')
  next
    case False
    with IH show ?thesis by (simp add: update_conv')
  qed
qed

text \<open>
  Claim C2 as stated fails for the ACEEI driver: the update adds delta times the excess
  demand without a lower bound, so the price 1/2 with delta 1/2 and excess demand -3
  becomes -1.
\<close>

theorem price_update_counterexample:
  "update_prices [(''x'', 1 / 2)] (1 / 2) [(''x'', - 3)] = Some [(''x'', - 1)] \<and>
   (0 :: real) \<le> 1 / 2 \<and> \<not> (0 :: real) \<le> - 1"
  by (simp add: update_prices_def)

text \<open>
  Claim C2, amended. Every price vector returned by \<open>find_gradient_neighbors\<close> has the
  items of the current prices as keys and no negative price (each price is clamped by
  \<open>max(0, ...)\<close>). Every price vector returned by
  \<open>find_individual_price_adjustment_neighbors\<close> has no negative price when the current
  prices have none. The ACEEI update keeps the items and maps the price of each item to
  price + delta * excess demand, with no clamp: the new price is non-negative exactly
  when delta * excess demand is at least minus the price.
\<close>

theorem price_vectors:
  "(\<forall>nn. find_gradient_neighbors prices delta z history = Some nn \<longrightarrow>
      (\<forall>n \<in> set nn. fst ` set n = fst ` set prices \<and> (\<forall>(c, v) \<in> set n. 0 \<le> v))) \<and>
   (\<forall>nn. find_individual_price_adjustment_neighbors inst history prices zs budgets allocation
           use_threads = Some nn \<and> (\<forall>(c, v) \<in> set prices. 0 \<le> v) \<longrightarrow>
      (\<forall>n \<in> set nn. \<forall>(c, v) \<in> set n. 0 \<le> v)) \<and>
   (\<forall>p'. update_prices prices d ed = Some p' \<and> distinct (map fst prices) \<longrightarrow>
      map fst p' = map fst prices \<and>
      (\<forall>k v. map_of prices k = Some v \<longrightarrow>
         (\<exists>e. map_of ed k = Some e \<and> map_of p' k = Some (v + d * e))))"
proof (intro conjI allI impI)
  fix nn assume "find_gradient_neighbors prices delta z history = Some nn"
  then have "gradient_loop prices delta z history [] [] = Some nn"
    by (simp add: find_gradient_neighbors_def)
  then show "\<forall>n \<in> set nn. fst ` set n = fst ` set prices \<and> (\<forall>(c, v) \<in> set n. 0 \<le> v)"
    by (rule gradient_loop_nonneg) simp_all
next
  fix nn
  assume "find_individual_price_adjustment_neighbors inst history prices zs budgets allocation
           use_threads = Some nn \<and> (\<forall>(c, v) \<in> set prices. 0 \<le> v)"
  then have run: "adjustment_loop inst history prices budgets allocation use_threads zs [] = Some nn"
    and n: "\<forall>(c, v) \<in> set prices. 0 \<le> v"
    by (simp_all add: find_individual_price_adjustment_neighbors_def)
  from run n show "\<forall>n \<in> set nn. \<forall>(c, v) \<in> set n. 0 \<le> v"
    by (rule adjustment_loop_nonneg) simp
next
  fix p' assume a: "update_prices prices d ed = Some p' \<and> distinct (map fst prices)"
  then have run: "price_update_loop (map fst prices) d ed prices = Some p'"
    and dist: "distinct (map fst prices)" by (simp_all add: update_prices_def)
  from run show "map fst p' = map fst prices" by (rule price_update_loop_keys)
  fix k v assume kv: "map_of prices k = Some v"
  then have "(k, v) \<in> set prices" by (rule map_of_SomeD)
  then have "k \<in> fst ` set prices" by force
  then have "k \<in> set (map fst prices)" by simp
  with price_update_loop_lookup [OF run dist, of k] kv
  show "\<exists>e. map_of ed k = Some e \<and> map_of p' k = Some (v + d * e)" by auto
qed

lemma gradient_t:
  "find_gradient_neighbors prices_t [1] excess_t [] = Some [[(''x'', 1), (''y'', 4), (''z'', 0)]]"
  by (simp add: find_gradient_neighbors_def prices_t_def excess_t_def)

lemma adjustment_t:
  "find_individual_price_adjustment_neighbors instance_t [] prices_t [(''z'', - 2)] budgets_t
     allocation_t False = Some [[(''x'', 1), (''y'', 2), (''z'', 0)]]"
  by (simp add: find_individual_price_adjustment_neighbors_def prices_t_def)

lemma update_t:
  "update_prices prices_t (1 / 2) [(''x'', 0), (''y'', 1), (''z'', - 2)] =
     Some [(''x'', 1), (''y'', 5 / 2), (''z'', 0)]"
  by (simp add: update_prices_def prices_t_def)

text \<open>
  The first doctest of \<open>find_gradient_neighbors\<close> (z is clamped at 0), a course of
  negative excess demand snapped to 0, and an ACEEI update.
\<close>

theorem price_vectors_witness:
  "find_gradient_neighbors prices_t [1] excess_t [] = Some [[(''x'', 1), (''y'', 4), (''z'', 0)]] \<and>
   find_individual_price_adjustment_neighbors instance_t [] prices_t [(''z'', - 2)] budgets_t
     allocation_t False = Some [[(''x'', 1), (''y'', 2), (''z'', 0)]] \<and>
   list_all (\<lambda>(c, v). 0 \<le> v) prices_t \<and>
   update_prices prices_t (1 / 2) [(''x'', 0), (''y'', 1), (''z'', - 2)] =
     Some [(''x'', 1), (''y'', 5 / 2), (''z'', 0)] \<and>
   distinct (map fst prices_t) \<and> map_of prices_t ''z'' = Some 1 \<and>
   map_of [(''x'', 1), (''y'', 5 / 2), (''z'', 0 :: real)] ''z'' = Some (1 + 1 / 2 * (- 2))"
  using price_vectors [where prices = prices_t and delta = "[1]" and z = excess_t
      and history = "[]" and inst = instance_t and zs = "[(''z'', - 2)]" and budgets = budgets_t
      and allocation = allocation_t and use_threads = False and d = "1 / 2"
      and ed = "[(''x'', 0), (''y'', 1), (''z'', - 2)]"]
  by (simp add: gradient_t adjustment_t update_t) (simp add: prices_t_def)

section \<open>The cap on the individual price adjustment neighbors\<close>

lemma adjustment_loop_full:
  "35 \<le> length nn \<Longrightarrow>
   adjustment_loop inst history prices budgets allocation use_threads zs nn = Some nn"
  by (cases zs) auto

lemma adjustment_loop_bound:
  "adjustment_loop inst history prices budgets allocation use_threads zs nn = Some res \<Longrightarrow>
   length nn \<le> 35 \<Longrightarrow>
   length res \<le> 35 \<or>
   (\<exists>pre course excess. (course, excess) \<in> set zs \<and> 0 < excess \<and> length pre < 35 \<and>
      steps_loop inst history budgets allocation use_threads course 10 prices pre = Some res)"
proof (induction zs arbitrary: nn)
  case Nil
  then show ?case by simp
next
  case (Cons e zs)
  obtain course excess where e: "e = (course, excess)" by (cases e)
  show ?case
  proof (cases "length nn \<ge> 35")
    case True
    with Cons.prems e show ?thesis by simp
  next
    case short: False
    consider (zero) "excess = 0" | (pos) "excess > 0" | (neg) "excess < 0" by linarith
    then show ?thesis
    proof cases
      case zero
      with short Cons.prems(1) e have
        "adjustment_loop inst history prices budgets allocation use_threads zs nn = Some res"
        by simp
      from Cons.IH [OF this Cons.prems(2)] show ?thesis by auto
    next
      case pos
      with short Cons.prems(1) e obtain nn' where
        st: "steps_loop inst history budgets allocation use_threads course 10 prices nn = Some nn'"
        and rest: "adjustment_loop inst history prices budgets allocation use_threads zs nn' = Some res"
        by (auto split: option.splits)
      show ?thesis
      proof (cases "length nn' \<le> 35")
        case True
        from Cons.IH [OF rest True] show ?thesis by auto
      next
        case False
        then have "35 \<le> length nn'" by simp
        then have "adjustment_loop inst history prices budgets allocation use_threads zs nn' = Some nn'"
          by (rule adjustment_loop_full)
        with rest have "res = nn'" by simp
        with st short pos e have "(course, excess) \<in> set (e # zs) \<and> 0 < excess \<and> length nn < 35 \<and>
          steps_loop inst history budgets allocation use_threads course 10 prices nn = Some res"
          by simp
        then show ?thesis by blast
      qed
    next
      case neg
      let ?u = "AList.update course 0 prices"
      from neg short Cons.prems(1) e obtain tabu where
        rest: "adjustment_loop inst history prices budgets allocation use_threads zs
            (if \<not> tabu then nn @ [?u] else nn) = Some res"
        by (auto simp: Let_def split: option.splits)
      from short have "length (if \<not> tabu then nn @ [?u] else nn) \<le> 35" by simp
      from Cons.IH [OF rest this] show ?thesis by auto
    qed
  qed
qed

text \<open>
  Claim C5, amended. \<open>find_individual_price_adjustment_neighbors\<close> tests the cap of 35
  only before it starts an item of the excess demand vector. Once 35 or more neighbors
  are accepted no further item is processed. A returned list of more than 35 neighbors is
  the list as it stood after the 10 steps of one item of positive excess demand, started
  with fewer than 35 neighbors. An item of negative excess demand adds at most one
  neighbor, so a call in which no item has positive excess demand returns at most 35.
\<close>

theorem neighbor_cap:
  fixes inst :: "('a, 'i) Instance"
  shows "(\<forall>nn. 35 \<le> length nn \<longrightarrow>
      adjustment_loop inst history prices budgets allocation use_threads zs nn = Some nn) \<and>
   (\<forall>res. find_individual_price_adjustment_neighbors inst history prices zs budgets allocation
            use_threads = Some res \<longrightarrow>
      length res \<le> 35 \<or>
      (\<exists>pre course excess. (course, excess) \<in> set zs \<and> 0 < excess \<and> length pre < 35 \<and>
         steps_loop inst history budgets allocation use_threads course 10 prices pre = Some res)) \<and>
   (\<forall>res. find_individual_price_adjustment_neighbors inst history prices zs budgets allocation
            use_threads = Some res \<and> (\<forall>(course, excess) \<in> set zs. excess \<le> 0) \<longrightarrow>
      length res \<le> 35)"
proof (intro conjI allI impI)
  fix nn :: "('i, real) dict list" assume "35 \<le> length nn"
  then show "adjustment_loop inst history prices budgets allocation use_threads zs nn = Some nn"
    by (rule adjustment_loop_full)
next
  fix res
  assume "find_individual_price_adjustment_neighbors inst history prices zs budgets allocation
            use_threads = Some res"
  then have "adjustment_loop inst history prices budgets allocation use_threads zs [] = Some res"
    by (simp add: find_individual_price_adjustment_neighbors_def)
  then show "length res \<le> 35 \<or>
      (\<exists>pre course excess. (course, excess) \<in> set zs \<and> 0 < excess \<and> length pre < 35 \<and>
         steps_loop inst history budgets allocation use_threads course 10 prices pre = Some res)"
    by (rule adjustment_loop_bound) simp
next
  fix res
  assume a: "find_individual_price_adjustment_neighbors inst history prices zs budgets allocation
            use_threads = Some res \<and> (\<forall>(course, excess) \<in> set zs. excess \<le> 0)"
  then have "adjustment_loop inst history prices budgets allocation use_threads zs [] = Some res"
    by (simp add: find_individual_price_adjustment_neighbors_def)
  then have "length res \<le> 35 \<or>
      (\<exists>pre course excess. (course, excess) \<in> set zs \<and> 0 < excess \<and> length pre < 35 \<and>
         steps_loop inst history budgets allocation use_threads course 10 prices pre = Some res)"
    by (rule adjustment_loop_bound) simp
  with a show "length res \<le> 35" by fastforce
qed


lemma instance_n_simps:
  "agents instance_n = [''A'']"
  "items instance_n = [''c'', ''d'', ''e'', ''f'', ''g'']"
  "agent_capacity instance_n a = 1"
  "agent_bundle_value instance_n a b = real (length b)"
  by (simp_all add: instance_n_def)

lemma combos_n:
  "combinations_courses_list instance_n a = [[''c''], [''d''], [''e''], [''f''], [''g'']]"
  by (simp add: combinations_courses_list_def instance_n_simps)

lemma ranking_n:
  "combinations_courses_sorted instance_n a = [[''c''], [''d''], [''e''], [''f''], [''g'']]"
  by (simp add: combinations_courses_sorted_def combos_n sorted_reverse_def instance_n_simps)

lemma best_bundles_n:
  "0 < v \<Longrightarrow> student_best_bundles (prices_n v) instance_n budgets_n =
     Some [[(''A'', [''d''])], [(''A'', [''e''])], [(''A'', [''f''])], [(''A'', [''g''])]]"
  by (simp add: student_best_bundles_def instance_n_simps ranking_n prices_n_def budgets_n_def
      or_empty_bundle_def)

lemma differ_n:
  "b \<in> {[''d''], [''e''], [''f''], [''g'']} \<Longrightarrow> differ_in_one_value allocation_n [(''A'', b)] ''c''"
  by (auto simp: differ_in_one_value_def allocation_n_def)

lemma steps_loop_n:
  "0 \<le> v \<Longrightarrow>
   \<exists>res. steps_loop instance_n [] budgets_n allocation_n False ''c'' n (prices_n v) nn = Some res \<and>
         length res = length nn + 4 * n"
proof (induction n arbitrary: v nn)
  case 0
  show ?case by simp
next
  case (Suc n)
  let ?v = "v + sqrt_half"
  from Suc.prems sqrt_half_pos have pos: "0 < ?v" and nonneg: "0 \<le> ?v" by simp_all
  have u: "AList.update ''c'' ?v (prices_n v) = prices_n ?v" by (simp add: prices_n_def)
  have m: "map_of (prices_n v) ''c'' = Some v" by (simp add: prices_n_def)
  let ?nn = "nn @ map (\<lambda>new_allocation. prices_n ?v)
      (filter (\<lambda>new_allocation. differ_in_one_value allocation_n new_allocation ''c'')
         [[(''A'', [''d''])], [(''A'', [''e''])], [(''A'', [''f''])], [(''A'', [''g''])]])"
  have step: "steps_loop instance_n [] budgets_n allocation_n False ''c'' (Suc n) (prices_n v) nn =
      steps_loop instance_n [] budgets_n allocation_n False ''c'' n (prices_n ?v) ?nn"
    by (simp add: m u best_bundles_n [OF pos] Let_def differ_n del: AList.update.simps)
  have len: "length ?nn = length nn + 4" by (simp add: differ_n)
  from Suc.IH [OF nonneg, of ?nn] obtain res where
    "steps_loop instance_n [] budgets_n allocation_n False ''c'' n (prices_n ?v) ?nn = Some res"
    "length res = length ?nn + 4 * n" by blast
  with step len show ?case by simp
qed

text \<open>
  Claim C5 as stated fails: for the course c of positive excess demand each of the 10
  steps makes c unaffordable, the agent's best bundles are the four free courses, and
  the four new allocations all differ from the current one in one value: 40 neighbors.
\<close>

theorem neighbor_cap_counterexample:
  "map_option length
     (find_individual_price_adjustment_neighbors instance_n [] (prices_n 0) [(''c'', 1)] budgets_n
        allocation_n False) = Some 40 \<and> \<not> (40 :: nat) \<le> 35"
proof -
  from steps_loop_n [of 0 10 "[]"] obtain res where
    r: "steps_loop instance_n [] budgets_n allocation_n False ''c'' 10 (prices_n 0) [] = Some res"
    and l: "length res = 40" by auto
  then show ?thesis
    by (simp add: find_individual_price_adjustment_neighbors_def)
qed

text \<open>
  A list of 35 neighbors is returned as it is, and a course of negative excess demand
  adds one neighbor.
\<close>

theorem neighbor_cap_witness:
  "35 \<le> length (replicate 35 prices_t) \<and>
   adjustment_loop instance_t [] prices_t budgets_t allocation_t False [(''z'', - 2)]
     (replicate 35 prices_t) = Some (replicate 35 prices_t) \<and>
   find_individual_price_adjustment_neighbors instance_t [] prices_t [(''z'', - 2)] budgets_t
     allocation_t False = Some [[(''x'', 1), (''y'', 2), (''z'', 0)]] \<and>
   list_all (\<lambda>(course, excess). excess \<le> 0) [(''z'', - 2 :: int)] \<and>
   length [[(''x'', 1 :: real), (''y'', 2), (''z'', 0)]] \<le> 35"
  using neighbor_cap [where inst = instance_t and history = "[]" and prices = prices_t
      and budgets = budgets_t and allocation = allocation_t and use_threads = False
      and zs = "[(''z'', - 2)]"]
  by (simp add: adjustment_t)

end
